theory Spec2Isabelle
  imports Main "HOL-Library.Char_ord" "HOL-Library.List_Lexorder" "HOL-Library.AList"
begin

section \<open>JSON values and JavaScript string primitives\<close>

text \<open>
  The value tree produced by \<^verbatim>\<open>JSON.parse\<close>. An object is the list of its own
  entries in the order \<^verbatim>\<open>Object.entries\<close> enumerates them; a JavaScript object never
  holds the same key twice. Numbers are IEEE doubles in the source; the model leaves
  their type open (\<open>'n\<close>) and takes \<^verbatim>\<open>String(n)\<close> as the parameter \<open>numStr\<close>.
  A \<open>string\<close> is a sequence of UTF-16 code units, here those of the range
  U+0000..U+00FF that \<open>char\<close> covers.
\<close>

datatype 'n json =
    JNull
  | JBool bool
  | JNumber 'n
  | JString string
  | JArray "'n json list"
  | JObject "(string \<times> 'n json) list"

text \<open>\<^verbatim>\<open>s.startsWith(q)\<close> and \<^verbatim>\<open>s.includes(q)\<close>.\<close>

fun startsWith :: "string \<Rightarrow> string \<Rightarrow> bool" where
  "startsWith s [] = True"
| "startsWith [] (q # qs) = False"
| "startsWith (c # cs) (q # qs) = (c = q \<and> startsWith cs qs)"

fun stringIncludes :: "string \<Rightarrow> string \<Rightarrow> bool" where
  "stringIncludes [] q = (q = [])"
| "stringIncludes (c # cs) q = (startsWith (c # cs) q \<or> stringIncludes cs q)"

text \<open>
  \<^verbatim>\<open>s.toLowerCase()\<close> on the code units U+0000..U+00FF: A-Z and the accented capitals
  U+00C0..U+00DE (without the multiplication sign U+00D7) move up by 32.
\<close>

definition lowerChar :: "char \<Rightarrow> char" where
  "lowerChar c =
     (let n = (of_char c :: nat)
      in if (65 \<le> n \<and> n \<le> 90) \<or> (192 \<le> n \<and> n \<le> 222 \<and> n \<noteq> 215)
         then char_of (n + 32) else c)"

definition toLowerCase :: "string \<Rightarrow> string" where
  "toLowerCase s = map lowerChar s"

text \<open>Decimal rendering of an array index, as a template literal prints it.\<close>

definition digitChar :: "nat \<Rightarrow> char" where
  "digitChar d = char_of (48 + d)"

fun showNat :: "nat \<Rightarrow> string" where
  "showNat n = (if n < 10 then [digitChar n] else showNat (n div 10) @ [digitChar (n mod 10)])"

declare showNat.simps [simp del]

text \<open>
  \<^verbatim>\<open>String(n)\<close> for a number whose value is an integer of magnitude below \<open>10^21\<close>:
  its decimal digits. The concrete examples use it as \<open>numStr\<close>, with \<open>int\<close> for
  the numbers.
\<close>

definition intStr :: "int \<Rightarrow> string" where
  "intStr n = (if n < 0 then CHR ''-'' # showNat (nat (- n)) else showNat (nat n))"

definition boolStr :: "bool \<Rightarrow> string" where
  "boolStr b = (if b then ''true'' else ''false'')"

section \<open>Search (jsonUtils.ts)\<close>

datatype matchType = Key | Value

record searchMatch =
  matchPath :: string
  matchKind :: matchType
  matchText :: string

text \<open>
  The inner function \<^verbatim>\<open>search\<close> of \<^verbatim>\<open>searchJson\<close> pushes onto the shared array
  \<^verbatim>\<open>matches\<close>; the model returns the matches it pushes, in the order it pushes them.
  \<open>searchItems\<close> is the \<^verbatim>\<open>forEach\<close> over an array (with the running index),
  \<open>searchEntries\<close> the loop over \<^verbatim>\<open>Object.entries\<close>.
\<close>

fun search :: "('n \<Rightarrow> string) \<Rightarrow> bool \<Rightarrow> string \<Rightarrow> 'n json \<Rightarrow> string \<Rightarrow> searchMatch list"
  and searchItems :: "('n \<Rightarrow> string) \<Rightarrow> bool \<Rightarrow> string \<Rightarrow> 'n json list \<Rightarrow> nat \<Rightarrow> string \<Rightarrow> searchMatch list"
  and searchEntries :: "('n \<Rightarrow> string) \<Rightarrow> bool \<Rightarrow> string \<Rightarrow> (string \<times> 'n json) list \<Rightarrow> string \<Rightarrow> searchMatch list"
where
  "search numStr caseSensitive searchQuery JNull path =
     (let text = ''null''
      in if stringIncludes text searchQuery then [\<lparr>matchPath = path, matchKind = Value, matchText = text\<rparr>] else [])"
| "search numStr caseSensitive searchQuery (JString v) path =
     (let compareText = (if caseSensitive then v else toLowerCase v)
      in if stringIncludes compareText searchQuery then [\<lparr>matchPath = path, matchKind = Value, matchText = v\<rparr>] else [])"
| "search numStr caseSensitive searchQuery (JNumber n) path =
     (let text = numStr n;
          compareText = (if caseSensitive then text else toLowerCase text)
      in if stringIncludes compareText searchQuery then [\<lparr>matchPath = path, matchKind = Value, matchText = text\<rparr>] else [])"
| "search numStr caseSensitive searchQuery (JBool b) path =
     (let text = boolStr b;
          compareText = (if caseSensitive then text else toLowerCase text)
      in if stringIncludes compareText searchQuery then [\<lparr>matchPath = path, matchKind = Value, matchText = text\<rparr>] else [])"
| "search numStr caseSensitive searchQuery (JArray arr) path =
     searchItems numStr caseSensitive searchQuery arr 0 path"
| "search numStr caseSensitive searchQuery (JObject entries) path =
     searchEntries numStr caseSensitive searchQuery entries path"
| "searchItems numStr caseSensitive searchQuery [] index path = []"
| "searchItems numStr caseSensitive searchQuery (item # rest) index path =
     search numStr caseSensitive searchQuery item (path @ ''['' @ showNat index @ '']'')
     @ searchItems numStr caseSensitive searchQuery rest (Suc index) path"
| "searchEntries numStr caseSensitive searchQuery [] path = []"
| "searchEntries numStr caseSensitive searchQuery ((key, val) # rest) path =
     (let keyPath = (if path \<noteq> [] then path @ ''.'' @ key else key);
          compareKey = (if caseSensitive then key else toLowerCase key)
      in (if stringIncludes compareKey searchQuery then [\<lparr>matchPath = keyPath, matchKind = Key, matchText = key\<rparr>] else [])
         @ search numStr caseSensitive searchQuery val keyPath
         @ searchEntries numStr caseSensitive searchQuery rest path)"

definition searchJson :: "('n \<Rightarrow> string) \<Rightarrow> 'n json \<Rightarrow> string \<Rightarrow> bool \<Rightarrow> searchMatch list" where
  "searchJson numStr data query caseSensitive =
     (let searchQuery = (if caseSensitive then query else toLowerCase query)
      in search numStr caseSensitive searchQuery data [])"

section \<open>Schema inference (schemaInference.ts)\<close>

datatype jsonType = TString | TNumber | TBoolean | TNull | TObject | TArray

text \<open>
  A \<^verbatim>\<open>Set<JsonType>\<close> is the list of its members in insertion order, a
  \<^verbatim>\<open>Map<string, SchemaNode>\<close> the list of its entries in insertion order
  (\<^verbatim>\<open>map.set\<close> is \<^const>\<open>AList.update\<close>: it overwrites in place or appends).
  The optional fields \<^verbatim>\<open>children\<close> and \<^verbatim>\<open>items\<close> are options.
\<close>

definition setAdd :: "'a \<Rightarrow> 'a list \<Rightarrow> 'a list" where
  "setAdd x s = (if x \<in> set s then s else s @ [x])"

datatype schemaNode =
  SchemaNode
    (types : "jsonType list")
    (children : "(string \<times> schemaNode) list option")
    (items : "schemaNode option")
    (occurrences : nat)
    (hasInconsistentTypes : bool)

record schemaInfo =
  root :: schemaNode
  inconsistentPaths :: "string list"

fun getJsonType :: "'n json \<Rightarrow> jsonType" where
  "getJsonType JNull = TNull"
| "getJsonType (JArray arr) = TArray"
| "getJsonType (JObject entries) = TObject"
| "getJsonType (JString s) = TString"
| "getJsonType (JNumber n) = TNumber"
| "getJsonType (JBool b) = TBoolean"

definition createEmptyNode :: schemaNode where
  "createEmptyNode = SchemaNode [] None None 0 False"

text \<open>
  \<^verbatim>\<open>mergeSchemaNodes(target, source)\<close> mutates \<^verbatim>\<open>target\<close>; the model returns the
  target after the call. The source node is built fresh for every call and dropped after
  it, so the sub-nodes the target then shares with it are never seen through the source
  again. \<open>mergeChildren\<close> is the \<^verbatim>\<open>forEach\<close> over \<^verbatim>\<open>source.children\<close>, its
  first argument the target's children so far.
\<close>

function mergeSchemaNodes :: "schemaNode \<Rightarrow> schemaNode \<Rightarrow> schemaNode"
  and mergeChildren :: "(string \<times> schemaNode) list \<Rightarrow> (string \<times> schemaNode) list \<Rightarrow> (string \<times> schemaNode) list"
where
  "mergeSchemaNodes target source =
     (let types' = foldl (\<lambda>s t. setAdd t s) (types target) (types source);
          occurrences' = occurrences target + occurrences source;
          nonNullTypes = filter (\<lambda>t. t \<noteq> TNull) types';
          hasInconsistentTypes' = (length nonNullTypes > 1);
          children' =
            (case children source of
               None \<Rightarrow> children target
             | Some sourceChildren \<Rightarrow>
                 Some (mergeChildren
                         (case children target of None \<Rightarrow> [] | Some targetChildren \<Rightarrow> targetChildren)
                         sourceChildren));
          items' =
            (case items source of
               None \<Rightarrow> items target
             | Some sourceItems \<Rightarrow>
                 (case items target of
                    None \<Rightarrow> Some sourceItems
                  | Some targetItems \<Rightarrow> Some (mergeSchemaNodes targetItems sourceItems)))
      in SchemaNode types' children' items' occurrences' hasInconsistentTypes')"
| "mergeChildren targetChildren [] = targetChildren"
| "mergeChildren targetChildren ((key, childNode) # rest) =
     (case map_of targetChildren key of
        Some existing \<Rightarrow>
          mergeChildren (AList.update key (mergeSchemaNodes existing childNode) targetChildren) rest
      | None \<Rightarrow> mergeChildren (AList.update key childNode targetChildren) rest)"
  by pat_completeness auto
termination
  apply (relation "measure (\<lambda>x. case x of Inl (t, s) \<Rightarrow> size s
                                   | Inr (tc, sc) \<Rightarrow> size_list (size_prod (\<lambda>k. 0) size) sc)")
      apply simp
  subgoal for target source by (cases source) simp
  subgoal for target source by (cases source) simp
  apply simp_all
  done

text \<open>
  \<open>inferChildren\<close> is the loop over \<^verbatim>\<open>Object.entries(obj)\<close> filling
  \<^verbatim>\<open>node.children\<close>; \<open>inferItems\<close> is the loop over the array merging every
  element's schema into \<^verbatim>\<open>node.items\<close>.
\<close>

fun inferSchemaFromValue :: "'n json \<Rightarrow> schemaNode"
  and inferChildren :: "(string \<times> 'n json) list \<Rightarrow> (string \<times> schemaNode) list \<Rightarrow> (string \<times> schemaNode) list"
  and inferItems :: "'n json list \<Rightarrow> schemaNode \<Rightarrow> schemaNode"
where
  "inferSchemaFromValue (JObject entries) =
     SchemaNode (setAdd TObject []) (Some (inferChildren entries [])) None 1 False"
| "inferSchemaFromValue (JArray arr) =
     SchemaNode (setAdd TArray []) None
       (if length arr > 0 then Some (inferItems arr createEmptyNode) else None) 1 False"
| "inferSchemaFromValue v = SchemaNode (setAdd (getJsonType v) []) None None 1 False"
| "inferChildren [] m = m"
| "inferChildren ((key, val) # rest) m =
     inferChildren rest (AList.update key (inferSchemaFromValue val) m)"
| "inferItems [] node = node"
| "inferItems (item # rest) node =
     inferItems rest (mergeSchemaNodes node (inferSchemaFromValue item))"

text \<open>
  \<^verbatim>\<open>collectInconsistentPaths\<close> pushes onto \<^verbatim>\<open>paths\<close>; the model returns what it
  pushes, in order. \<^verbatim>\<open>currentPath || "(root)"\<close> and the two conditionals on
  \<^verbatim>\<open>currentPath\<close> test the string for emptiness.
\<close>

fun collectInconsistentPaths :: "schemaNode \<Rightarrow> string \<Rightarrow> string list"
  and collectChildren :: "(string \<times> schemaNode) list \<Rightarrow> string \<Rightarrow> string list"
where
  "collectInconsistentPaths (SchemaNode ts cs it occ inconsistent) currentPath =
     (if inconsistent then [if currentPath \<noteq> [] then currentPath else ''(root)''] else [])
     @ (case cs of None \<Rightarrow> [] | Some m \<Rightarrow> collectChildren m currentPath)
     @ (case it of
          None \<Rightarrow> []
        | Some itemNode \<Rightarrow>
            collectInconsistentPaths itemNode
              (if currentPath \<noteq> [] then currentPath @ ''[]'' else ''[]''))"
| "collectChildren [] currentPath = []"
| "collectChildren ((key, child) # rest) currentPath =
     collectInconsistentPaths child
       (if currentPath \<noteq> [] then currentPath @ ''.'' @ key else key)
     @ collectChildren rest currentPath"

definition inferSchema :: "'n json \<Rightarrow> schemaInfo" where
  "inferSchema data =
     (let root = inferSchemaFromValue data
      in \<lparr>root = root, inconsistentPaths = collectInconsistentPaths root []\<rparr>)"

section \<open>Ordinary objects\<close>

text \<open>
  An object the code creates with \<^verbatim>\<open>{}\<close> and fills by \<^verbatim>\<open>obj[key] = v\<close> is the list of
  its own properties in enumeration order (ECMAScript, OrdinaryOwnPropertyKeys): the keys
  that are array indices (canonical decimal numerals up to \<open>2^32 - 2\<close>) first, in
  ascending numeric order, then the other keys in the order of their creation. The
  object inherits from \<^verbatim>\<open>Object.prototype\<close>. Assigning to the key \<^verbatim>\<open>__proto__\<close> finds
  the accessor property of that name on the prototype and runs its setter (ECMAScript,
  \<^verbatim>\<open>set Object.prototype.__proto__\<close>), which changes the prototype for an object or
  \<^verbatim>\<open>null\<close>, does nothing for any other value, and creates no own property in either
  case; \<^verbatim>\<open>JSON.parse\<close>, in contrast, defines \<^verbatim>\<open>__proto__\<close> as an own property. Reading
  a key that is not an own property finds the members of \<^verbatim>\<open>Object.prototype\<close>, which
  are functions (and, for \<^verbatim>\<open>__proto__\<close>, the prototype object), never strings.
\<close>

definition isDigit :: "char \<Rightarrow> bool" where
  "isDigit c = (let n = (of_char c :: nat) in 48 \<le> n \<and> n \<le> 57)"

definition digitsValue :: "string \<Rightarrow> nat" where
  "digitsValue s = foldl (\<lambda>acc c. 10 * acc + (of_char c - 48)) 0 s"

definition isArrayIndex :: "string \<Rightarrow> bool" where
  "isArrayIndex s =
     (s \<noteq> [] \<and> list_all isDigit s \<and> (if hd s = CHR ''0'' then s = ''0'' else True)
      \<and> digitsValue s \<le> 4294967294)"

fun insertIndexKey :: "string \<Rightarrow> 'v \<Rightarrow> (string \<times> 'v) list \<Rightarrow> (string \<times> 'v) list" where
  "insertIndexKey k v [] = [(k, v)]"
| "insertIndexKey k v ((k', v') # rest) =
     (if isArrayIndex k' \<and> digitsValue k' < digitsValue k
      then (k', v') # insertIndexKey k v rest
      else (k, v) # (k', v') # rest)"

definition objSet :: "string \<Rightarrow> 'v \<Rightarrow> (string \<times> 'v) list \<Rightarrow> (string \<times> 'v) list" where
  "objSet k v obj =
     (if k = ''__proto__'' then obj
      else if map_of obj k \<noteq> None then AList.update k v obj
      else if isArrayIndex k then insertIndexKey k v obj
      else obj @ [(k, v)])"

definition objectPrototypeNames :: "string list" where
  "objectPrototypeNames =
     [''constructor'', ''__defineGetter__'', ''__defineSetter__'', ''hasOwnProperty'',
      ''__lookupGetter__'', ''__lookupSetter__'', ''isPrototypeOf'', ''propertyIsEnumerable'',
      ''toString'', ''valueOf'', ''__proto__'', ''toLocaleString'']"

datatype 'v property = Own 'v | Inherited | Undefined

definition objGet :: "string \<Rightarrow> (string \<times> 'v) list \<Rightarrow> 'v property" where
  "objGet k obj =
     (case map_of obj k of
        Some v \<Rightarrow> Own v
      | None \<Rightarrow> if k \<in> set objectPrototypeNames then Inherited else Undefined)"

section \<open>Key sorter (jsonUtils.ts)\<close>

text \<open>
  \<^verbatim>\<open>keys.sort(compare)\<close> with a consistent comparison function is the stable sort;
  \<open>sortBy\<close> is insertion sort, which keeps the order of keys that compare equal.
  The comparison \<^verbatim>\<open>a.localeCompare(b, undefined, { sensitivity: "base" })\<close> depends on
  the host's locale data and is the parameter \<open>localeCompare\<close>.
\<close>

fun insortBy :: "('a \<Rightarrow> 'a \<Rightarrow> int) \<Rightarrow> 'a \<Rightarrow> 'a list \<Rightarrow> 'a list" where
  "insortBy compare x [] = [x]"
| "insortBy compare x (y # ys) =
     (if compare x y \<le> 0 then x # y # ys else y # insortBy compare x ys)"

definition sortBy :: "('a \<Rightarrow> 'a \<Rightarrow> int) \<Rightarrow> 'a list \<Rightarrow> 'a list" where
  "sortBy compare xs = foldr (insortBy compare) xs []"

text \<open>
  \<open>sortedAssign\<close> is the loop \<^verbatim>\<open>for (const key of keys) sorted[key] =
  sortObjectKeys(value[key])\<close>, its last argument the object \<^verbatim>\<open>sorted\<close> so far. Every
  key comes from \<^verbatim>\<open>Object.keys(value)\<close>, so \<^verbatim>\<open>value[key]\<close> is an own property and the
  \<open>None\<close> branch is never taken.
\<close>

function sortObjectKeys :: "(string \<Rightarrow> string \<Rightarrow> int) \<Rightarrow> 'n json \<Rightarrow> 'n json"
  and sortedAssign :: "(string \<Rightarrow> string \<Rightarrow> int) \<Rightarrow> (string \<times> 'n json) list \<Rightarrow> string list
                        \<Rightarrow> (string \<times> 'n json) list \<Rightarrow> (string \<times> 'n json) list"
where
  "sortObjectKeys localeCompare JNull = JNull"
| "sortObjectKeys localeCompare (JBool b) = JBool b"
| "sortObjectKeys localeCompare (JNumber n) = JNumber n"
| "sortObjectKeys localeCompare (JString s) = JString s"
| "sortObjectKeys localeCompare (JArray arr) = JArray (map (sortObjectKeys localeCompare) arr)"
| "sortObjectKeys localeCompare (JObject entries) =
     (let keys = sortBy localeCompare (map fst entries)
      in JObject (sortedAssign localeCompare entries keys []))"
| "sortedAssign localeCompare entries [] sortedObj = sortedObj"
| "sortedAssign localeCompare entries (key # keys) sortedObj =
     (case map_of entries key of
        Some v \<Rightarrow>
          sortedAssign localeCompare entries keys
            (objSet key (sortObjectKeys localeCompare v) sortedObj)
      | None \<Rightarrow> sortedAssign localeCompare entries keys sortedObj)"
  by pat_completeness auto
termination
proof (relation "inv_image (less_than <*lex*> less_than)
         (\<lambda>x. case x of
                 Inl (c, v) \<Rightarrow> (size v, 0)
               | Inr (c, entries, keys, sortedObj) \<Rightarrow>
                   (size_list (size_prod (\<lambda>k. 0) size) entries, Suc (length keys)))")
  fix localeCompare :: "string \<Rightarrow> string \<Rightarrow> int"
  fix entries :: "(string \<times> 'n json) list" and key :: string and v :: "'n json"
  fix keys :: "string list" and sortedObj :: "(string \<times> 'n json) list"
  assume "map_of entries key = Some v"
  then have "(key, v) \<in> set entries" by (rule map_of_SomeD)
  then have "size v < size_list (size_prod (\<lambda>k. 0) size) entries"
    by (induction entries) auto
  then show "(Inl (localeCompare, v), Inr (localeCompare, entries, key # keys, sortedObj))
     \<in> inv_image (less_than <*lex*> less_than)
         (\<lambda>x. case x of
                 Inl (c, v) \<Rightarrow> (size v, 0)
               | Inr (c, entries, keys, sortedObj) \<Rightarrow>
                   (size_list (size_prod (\<lambda>k. 0) size) entries, Suc (length keys)))"
    by simp
qed (auto simp: less_Suc_eq_le size_list_estimation')

section \<open>Format converters (exportFormats.ts)\<close>

definition joinWith :: "string \<Rightarrow> string list \<Rightarrow> string" where
  "joinWith sep xs = (case xs of [] \<Rightarrow> [] | y # ys \<Rightarrow> y @ concat (map (\<lambda>z. sep @ z) ys))"

definition replaceAll :: "char \<Rightarrow> string \<Rightarrow> string \<Rightarrow> string" where
  "replaceAll c r s = concat (map (\<lambda>x. if x = c then r else [x]) s)"

definition endsWith :: "string \<Rightarrow> string \<Rightarrow> bool" where
  "endsWith s q = startsWith (rev s) (rev q)"

text \<open>\<^verbatim>\<open>String(v)\<close> for a primitive value or \<^verbatim>\<open>null\<close>.\<close>

fun primitiveStr :: "('n \<Rightarrow> string) \<Rightarrow> 'n json \<Rightarrow> string" where
  "primitiveStr numStr JNull = ''null''"
| "primitiveStr numStr (JBool b) = boolStr b"
| "primitiveStr numStr (JNumber n) = numStr n"
| "primitiveStr numStr (JString s) = s"
| "primitiveStr numStr v = []"

subsection \<open>\<^verbatim>\<open>JSON.stringify\<close> of a string\<close>

definition hexDigit :: "nat \<Rightarrow> char" where
  "hexDigit d = (if d < 10 then char_of (48 + d) else char_of (87 + d))"

definition escapeJsonChar :: "char \<Rightarrow> string" where
  \<open>escapeJsonChar c =
     (let n = (of_char c :: nat)
      in if c = CHR ''"'' then [CHR 0x5C, CHR ''"'']
         else if n = 0x5C then [CHR 0x5C, CHR 0x5C]
         else if n = 8 then [CHR 0x5C, CHR ''b'']
         else if n = 12 then [CHR 0x5C, CHR ''f'']
         else if n = 10 then [CHR 0x5C, CHR ''n'']
         else if n = 13 then [CHR 0x5C, CHR ''r'']
         else if n = 9 then [CHR 0x5C, CHR ''t'']
         else if n < 32 then [CHR 0x5C, CHR ''u'', CHR ''0'', CHR ''0'', hexDigit (n div 16), hexDigit (n mod 16)]
         else [c])\<close>

definition quoteJsonString :: "string \<Rightarrow> string" where
  \<open>quoteJsonString s = [CHR ''"''] @ concat (map escapeJsonChar s) @ [CHR ''"'']\<close>

subsection \<open>YAML\<close>

text \<open>The white space \<^verbatim>\<open>trimStart\<close> removes, among the code units U+0000..U+00FF.\<close>

definition isWhiteSpace :: "char \<Rightarrow> bool" where
  "isWhiteSpace c = (of_char c \<in> {9, 10, 11, 12, 13, 32, 160 :: nat})"

definition trimStart :: "string \<Rightarrow> string" where
  "trimStart s = dropWhile isWhiteSpace s"

text \<open>The character class \<^verbatim>\<open>[\w-]\<close>, which is also \<^verbatim>\<open>[a-zA-Z0-9_-]\<close>.\<close>

definition isWordOrHyphen :: "char \<Rightarrow> bool" where
  "isWordOrHyphen c =
     (let n = (of_char c :: nat)
      in (97 \<le> n \<and> n \<le> 122) \<or> (65 \<le> n \<and> n \<le> 90) \<or> (48 \<le> n \<and> n \<le> 57)
         \<or> c = CHR ''_'' \<or> c = CHR ''-'')"

text \<open>The condition under which \<^verbatim>\<open>jsonToYaml\<close> quotes a string.\<close>

definition needsQuoting :: "string \<Rightarrow> bool" where
  "needsQuoting s =
     (s = [] \<or> stringIncludes s [CHR 0x0A] \<or> stringIncludes s '':'' \<or> stringIncludes s ''#''
      \<or> startsWith s '' '' \<or> endsWith s '' ''
      \<or> (s \<noteq> [] \<and> list_all (\<lambda>c. isDigit c \<or> c = CHR ''.'') s)
      \<or> toLowerCase s \<in> set [''true'', ''false'', ''null'', ''yes'', ''no'', ''on'', ''off''])"

text \<open>
  \<^verbatim>\<open>typeof v === "object" && v !== null\<close>, and the same with the test that the array or
  object is not empty.
\<close>

fun isObjectOrArray :: "'n json \<Rightarrow> bool" where
  "isObjectOrArray (JArray arr) = True"
| "isObjectOrArray (JObject entries) = True"
| "isObjectOrArray v = False"

fun isNonEmptyContainer :: "'n json \<Rightarrow> bool" where
  "isNonEmptyContainer (JArray arr) = (length arr > 0)"
| "isNonEmptyContainer (JObject entries) = (length entries > 0)"
| "isNonEmptyContainer v = False"

text \<open>
  \<open>yamlItems\<close> and \<open>yamlEntries\<close> are the two \<^verbatim>\<open>map\<close> calls of \<^verbatim>\<open>jsonToYaml\<close>, over
  the elements of an array and over \<^verbatim>\<open>Object.entries\<close>.
\<close>

fun jsonToYaml :: "('n \<Rightarrow> string) \<Rightarrow> 'n json \<Rightarrow> nat \<Rightarrow> string"
  and yamlItems :: "('n \<Rightarrow> string) \<Rightarrow> 'n json list \<Rightarrow> nat \<Rightarrow> string list"
  and yamlEntries :: "('n \<Rightarrow> string) \<Rightarrow> (string \<times> 'n json) list \<Rightarrow> nat \<Rightarrow> string list"
where
  "jsonToYaml numStr JNull indent = ''null''"
| "jsonToYaml numStr (JBool b) indent = (if b then ''true'' else ''false'')"
| "jsonToYaml numStr (JNumber n) indent = numStr n"
| "jsonToYaml numStr (JString s) indent = (if needsQuoting s then quoteJsonString s else s)"
| "jsonToYaml numStr (JArray arr) indent =
     (if length arr = 0 then ''[]''
      else [CHR 0x0A] @ joinWith [CHR 0x0A] (yamlItems numStr arr indent))"
| "jsonToYaml numStr (JObject entries) indent =
     (if length entries = 0 then ''{}''
      else (if indent = 0 then [] else [CHR 0x0A])
           @ joinWith [CHR 0x0A] (yamlEntries numStr entries indent))"
| "yamlItems numStr [] indent = []"
| "yamlItems numStr (item # rest) indent =
     (let spaces = concat (replicate indent ''  '');
          val = jsonToYaml numStr item (indent + 1)
      in (if isObjectOrArray item then spaces @ ''- '' @ trimStart val
          else spaces @ ''- '' @ val))
     # yamlItems numStr rest indent"
| "yamlEntries numStr [] indent = []"
| "yamlEntries numStr ((key, val) # rest) indent =
     (let spaces = concat (replicate indent ''  '');
          yamlValue = jsonToYaml numStr val (indent + 1);
          safeKey = (if key \<noteq> [] \<and> list_all isWordOrHyphen key then key else quoteJsonString key)
      in (if isNonEmptyContainer val then spaces @ safeKey @ '':'' @ yamlValue
          else spaces @ safeKey @ '': '' @ yamlValue))
     # yamlEntries numStr rest indent"

subsection \<open>XML\<close>

definition escapeXml :: "string \<Rightarrow> string" where
  "escapeXml str =
     replaceAll (CHR 0x27) ''&apos;''
       (replaceAll (CHR 0x22) ''&quot;''
         (replaceAll CHR ''>'' ''&gt;''
           (replaceAll CHR ''<'' ''&lt;''
             (replaceAll CHR ''&'' ''&amp;'' str))))"

definition isLetterOrUnderscore :: "char \<Rightarrow> bool" where
  "isLetterOrUnderscore c =
     (let n = (of_char c :: nat)
      in (97 \<le> n \<and> n \<le> 122) \<or> (65 \<le> n \<and> n \<le> 90) \<or> c = CHR ''_'')"

text \<open>
  \<^verbatim>\<open>tagName.replace(/[^a-zA-Z0-9_-]/g, "_").replace(/^[^a-zA-Z_]/, "_")\<close>: the first
  replacement rewrites every character outside the class, the second one rewrites the
  first character when it is no letter or underscore.
\<close>

definition safeTag :: "string \<Rightarrow> string" where
  "safeTag tagName =
     (case map (\<lambda>c. if isWordOrHyphen c then c else CHR ''_'') tagName of
        [] \<Rightarrow> []
      | c # cs \<Rightarrow> (if isLetterOrUnderscore c then c else CHR ''_'') # cs)"

fun toXmlElement :: "('n \<Rightarrow> string) \<Rightarrow> 'n json \<Rightarrow> string \<Rightarrow> nat \<Rightarrow> string"
  and xmlItems :: "('n \<Rightarrow> string) \<Rightarrow> 'n json list \<Rightarrow> nat \<Rightarrow> string list"
  and xmlEntries :: "('n \<Rightarrow> string) \<Rightarrow> (string \<times> 'n json) list \<Rightarrow> nat \<Rightarrow> string list"
where
  \<open>toXmlElement numStr JNull tagName depth =
     concat (replicate depth ''  '') @ ''<'' @ safeTag tagName @ '' xsi:nil="true"/>''\<close>
| \<open>toXmlElement numStr (JBool b) tagName depth =
     concat (replicate depth ''  '') @ ''<'' @ safeTag tagName @ ''>'' @ boolStr b
       @ ''</'' @ safeTag tagName @ ''>''\<close>
| \<open>toXmlElement numStr (JNumber n) tagName depth =
     concat (replicate depth ''  '') @ ''<'' @ safeTag tagName @ ''>'' @ numStr n
       @ ''</'' @ safeTag tagName @ ''>''\<close>
| \<open>toXmlElement numStr (JString s) tagName depth =
     concat (replicate depth ''  '') @ ''<'' @ safeTag tagName @ ''>'' @ escapeXml s
       @ ''</'' @ safeTag tagName @ ''>''\<close>
| \<open>toXmlElement numStr (JArray arr) tagName depth =
     (let ind = concat (replicate depth ''  '')
      in if length arr = 0 then ind @ ''<'' @ safeTag tagName @ ''/>''
         else ind @ ''<'' @ safeTag tagName @ ''>'' @ [CHR 0x0A]
              @ joinWith [CHR 0x0A] (xmlItems numStr arr (depth + 1))
              @ [CHR 0x0A] @ ind @ ''</'' @ safeTag tagName @ ''>'')\<close>
| \<open>toXmlElement numStr (JObject entries) tagName depth =
     (let ind = concat (replicate depth ''  '')
      in if length entries = 0 then ind @ ''<'' @ safeTag tagName @ ''/>''
         else ind @ ''<'' @ safeTag tagName @ ''>'' @ [CHR 0x0A]
              @ joinWith [CHR 0x0A] (xmlEntries numStr entries (depth + 1))
              @ [CHR 0x0A] @ ind @ ''</'' @ safeTag tagName @ ''>'')\<close>
| \<open>xmlItems numStr [] depth = []\<close>
| \<open>xmlItems numStr (item # rest) depth =
     toXmlElement numStr item ''item'' depth # xmlItems numStr rest depth\<close>
| \<open>xmlEntries numStr [] depth = []\<close>
| \<open>xmlEntries numStr ((key, val) # rest) depth =
     toXmlElement numStr val key depth # xmlEntries numStr rest depth\<close>

definition jsonToXml :: "('n \<Rightarrow> string) \<Rightarrow> 'n json \<Rightarrow> string \<Rightarrow> string" where
  \<open>jsonToXml numStr data rootName =
     ''<?xml version="1.0" encoding="UTF-8"?>'' @ [CHR 0x0A] @ toXmlElement numStr data rootName 0\<close>

subsection \<open>CSV\<close>

text \<open>
  \<^verbatim>\<open>jsonToCsv\<close> returns an object \<^verbatim>\<open>{ success, csv?, error? }\<close>. A call can also end in
  a thrown \<^verbatim>\<open>TypeError\<close>: \<^verbatim>\<open>row[h] ?? ""\<close> reads an inherited member of
  \<^verbatim>\<open>Object.prototype\<close> when the row has no own property \<^verbatim>\<open>h\<close> and \<^verbatim>\<open>h\<close> names one,
  and \<^verbatim>\<open>escapeCsvValue\<close> then calls \<^verbatim>\<open>includes\<close> on a value that has no such method.
  The built-in \<^verbatim>\<open>JSON.stringify\<close>, which \<^verbatim>\<open>flattenObject\<close> applies to arrays, is the
  parameter \<open>stringify\<close>.
\<close>

datatype jsException = TypeError

record csvResult =
  success :: bool
  csv :: "string option"
  error :: "string option"

text \<open>\<^verbatim>\<open>Object.entries\<close> of an array: its elements under their indices.\<close>

definition indexEntries :: "'n json list \<Rightarrow> (string \<times> 'n json) list" where
  "indexEntries arr = zip (map showNat [0..<length arr]) arr"

text \<open>
  \<^verbatim>\<open>flattenObject(obj, prefix, result, keys)\<close> mutates \<^verbatim>\<open>result\<close> and \<^verbatim>\<open>keys\<close>; the
  model threads the pair of them through the loop over \<^verbatim>\<open>Object.entries(obj)\<close>.
\<close>

fun flattenObject :: "('n \<Rightarrow> string) \<Rightarrow> ('n json \<Rightarrow> string) \<Rightarrow> (string \<times> 'n json) list \<Rightarrow> string
                       \<Rightarrow> (string \<times> string) list \<times> string list
                       \<Rightarrow> (string \<times> string) list \<times> string list" where
  "flattenObject numStr stringify [] prefix st = st"
| "flattenObject numStr stringify ((key, val) # rest) prefix (result, keys) =
     (let fullKey = (if prefix \<noteq> [] then prefix @ ''.'' @ key else key)
      in flattenObject numStr stringify rest prefix
           (case val of
              JNull \<Rightarrow> (objSet fullKey ''null'' result, setAdd fullKey keys)
            | JObject entries \<Rightarrow> flattenObject numStr stringify entries fullKey (result, keys)
            | JArray arr \<Rightarrow> (objSet fullKey (stringify val) result, setAdd fullKey keys)
            | _ \<Rightarrow> (objSet fullKey (primitiveStr numStr val) result, setAdd fullKey keys)))"

text \<open>The loop of \<^verbatim>\<open>jsonToCsv\<close> over the rows, threading \<^verbatim>\<open>flatRows\<close> and \<^verbatim>\<open>allKeys\<close>.\<close>

fun csvRows :: "('n \<Rightarrow> string) \<Rightarrow> ('n json \<Rightarrow> string) \<Rightarrow> 'n json list
                 \<Rightarrow> (string \<times> string) list list \<times> string list
                 \<Rightarrow> (string \<times> string) list list \<times> string list" where
  "csvRows numStr stringify [] st = st"
| "csvRows numStr stringify (item # rest) (flatRows, allKeys) =
     csvRows numStr stringify rest
       (case item of
          JObject entries \<Rightarrow>
            (let (flatRow, allKeys') = flattenObject numStr stringify entries [] ([], allKeys)
             in (flatRows @ [flatRow], allKeys'))
        | JArray arr \<Rightarrow>
            (let (flatRow, allKeys') =
                   flattenObject numStr stringify (indexEntries arr) [] ([], allKeys)
             in (flatRows @ [flatRow], allKeys'))
        | _ \<Rightarrow> (flatRows @ [[(''value'', primitiveStr numStr item)]], setAdd ''value'' allKeys))"

definition escapeCsvValue :: "string \<Rightarrow> string" where
  \<open>escapeCsvValue val =
     (if stringIncludes val '','' \<or> stringIncludes val [CHR ''"''] \<or> stringIncludes val [CHR 0x0A]
      then [CHR ''"''] @ replaceAll (CHR ''"'') [CHR ''"'', CHR ''"''] val @ [CHR ''"'']
      else val)\<close>

text \<open>One data row: \<^verbatim>\<open>headers.map((h) => escapeCsvValue(row[h] ?? "")).join(",")\<close>.\<close>

fun csvCells :: "string list \<Rightarrow> (string \<times> string) list \<Rightarrow> jsException + string list" where
  "csvCells [] row = Inr []"
| "csvCells (h # hs) row =
     (case objGet h row of
        Inherited \<Rightarrow> Inl TypeError
      | Own v \<Rightarrow> (case csvCells hs row of Inl e \<Rightarrow> Inl e | Inr cells \<Rightarrow> Inr (escapeCsvValue v # cells))
      | Undefined \<Rightarrow> (case csvCells hs row of Inl e \<Rightarrow> Inl e | Inr cells \<Rightarrow> Inr (escapeCsvValue [] # cells)))"

fun csvDataRows :: "string list \<Rightarrow> (string \<times> string) list list \<Rightarrow> jsException + string list" where
  "csvDataRows headers [] = Inr []"
| "csvDataRows headers (row # rows) =
     (case csvCells headers row of
        Inl e \<Rightarrow> Inl e
      | Inr cells \<Rightarrow>
          (case csvDataRows headers rows of
             Inl e \<Rightarrow> Inl e
           | Inr dataRows \<Rightarrow> Inr (joinWith '','' cells # dataRows)))"

definition jsonToCsv :: "('n \<Rightarrow> string) \<Rightarrow> ('n json \<Rightarrow> string) \<Rightarrow> 'n json \<Rightarrow> jsException + csvResult" where
  "jsonToCsv numStr stringify data =
     (case (case data of JArray arr \<Rightarrow> Some arr | JObject entries \<Rightarrow> Some [data] | _ \<Rightarrow> None) of
        None \<Rightarrow>
          Inr \<lparr>success = False, csv = None,
               error = Some ''CSV export requires an array of objects or a single object''\<rparr>
      | Some arr \<Rightarrow>
          if length arr = 0 then Inr \<lparr>success = True, csv = Some [], error = None\<rparr>
          else
            (let (flatRows, allKeys) = csvRows numStr stringify arr ([], []);
                 headers = sort allKeys;
                 headerRow = joinWith '','' (map escapeCsvValue headers)
             in case csvDataRows headers flatRows of
                  Inl e \<Rightarrow> Inl e
                | Inr dataRows \<Rightarrow>
                    Inr \<lparr>success = True, csv = Some (joinWith [CHR 0x0A] (headerRow # dataRows)),
                         error = None\<rparr>))"

section \<open>Parse-error location (errorParser.ts)\<close>

text \<open>
  \<^verbatim>\<open>errorMessage.match(/position\s+(\d+)/i)\<close>: \<open>matchPosition\<close> matches the pattern at
  the start of a string and returns the digits captured, \<open>searchPosition\<close> tries every
  start from the left. \<^verbatim>\<open>\s+\<close> and \<^verbatim>\<open>\d+\<close> are greedy and share no character, so each
  takes its whole run. \<^verbatim>\<open>parseInt(digits, 10)\<close> is the value of the digits (a double in
  the source, exact below \<open>2^53\<close>).
\<close>

definition matchPosition :: "string \<Rightarrow> string option" where
  "matchPosition s =
     (if toLowerCase (take 8 s) = ''position''
      then (let afterWord = drop 8 s;
                spaces = takeWhile isWhiteSpace afterWord;
                digits = takeWhile isDigit (dropWhile isWhiteSpace afterWord)
            in if spaces \<noteq> [] \<and> digits \<noteq> [] then Some digits else None)
      else None)"

fun searchPosition :: "string \<Rightarrow> string option" where
  "searchPosition [] = matchPosition []"
| "searchPosition (c # cs) =
     (case matchPosition (c # cs) of Some digits \<Rightarrow> Some digits | None \<Rightarrow> searchPosition cs)"

definition extractPosition :: "string \<Rightarrow> string \<Rightarrow> nat option" where
  "extractPosition input errorMessage =
     (case searchPosition errorMessage of
        Some digits \<Rightarrow> Some (digitsValue digits)
      | None \<Rightarrow> None)"

text \<open>\<^verbatim>\<open>s.split("\n")\<close>.\<close>

fun splitLines :: "string \<Rightarrow> string list" where
  "splitLines [] = [[]]"
| "splitLines (c # cs) =
     (if c = CHR 0x0A then [] # splitLines cs
      else (case splitLines cs of [] \<Rightarrow> [[c]] | l # ls \<Rightarrow> (c # l) # ls))"

text \<open>The result \<^verbatim>\<open>{ line, column }\<close> is the pair \<open>(line, column)\<close>.\<close>

definition calculateLineAndColumn :: "string \<Rightarrow> nat \<Rightarrow> nat \<times> nat" where
  "calculateLineAndColumn input pos =
     (let lines = splitLines (take pos input)
      in (length lines, length (last lines) + 1))"

record parsedError =
  message :: string
  hint :: string
  position :: "nat option"
  line :: "nat option"
  column :: "nat option"

text \<open>
  \<^verbatim>\<open>parseJsonError(input, error)\<close>, with \<^verbatim>\<open>error.message\<close> for the error. The choice of
  message and hint (the table \<^verbatim>\<open>errorPatterns\<close>, the three refinements from the context
  of the position, and the fallback) leaves position, line and column as they are in
  every branch; it is the parameter \<open>describe\<close>.
\<close>

definition parseJsonError ::
  "(string \<Rightarrow> string \<Rightarrow> nat option \<Rightarrow> string \<times> string) \<Rightarrow> string \<Rightarrow> string \<Rightarrow> parsedError" where
  "parseJsonError describe input errorMessage =
     (let pos = extractPosition input errorMessage;
          loc = (case pos of Some p \<Rightarrow> Some (calculateLineAndColumn input p) | None \<Rightarrow> None);
          (msg, hnt) = describe input errorMessage pos
      in \<lparr>message = msg, hint = hnt, position = pos,
          line = (case loc of Some l \<Rightarrow> Some (fst l) | None \<Rightarrow> None),
          column = (case loc of Some l \<Rightarrow> Some (snd l) | None \<Rightarrow> None)\<rparr>)"

section \<open>The caller of the search (JsonFormatter.tsx)\<close>



section \<open>Notions used in the statements\<close>




text \<open>A node that is not flagged and below which, from the empty path, \<^verbatim>\<open>"(root)"\<close> is never reported.\<close>

definition rootFree :: "schemaNode \<Rightarrow> bool" where
  "rootFree node = (\<not> hasInconsistentTypes node \<and> ''(root)'' \<notin> set (collectInconsistentPaths node []))"


text \<open>
  The location as the specification words it: the number of line feeds in a text, and
  the index of its last line feed (\<open>-1\<close> when it has none). \<open>noDescription\<close> stands
  for the choice of message and hint in concrete examples.
\<close>


definition countNewlines :: "string \<Rightarrow> nat" where
  "countNewlines s = length (filter (\<lambda>c. c = CHR 0x0A) s)"

definition lastNewlineIndex :: "string \<Rightarrow> int" where
  "lastNewlineIndex s =
     (case dropWhile (\<lambda>c. c \<noteq> CHR 0x0A) (rev s) of
        [] \<Rightarrow> - 1
      | c # before \<Rightarrow> int (length before))"

definition noDescription :: "string \<Rightarrow> string \<Rightarrow> nat option \<Rightarrow> string \<times> string" where
  "noDescription input errorMessage pos = ([], [])"


text \<open>
  Keys that path syntax can tell apart: a key is plain when it is not empty and holds
  neither a dot nor an opening bracket; a value has plain keys when every object in it
  has plain keys, each of them once (as every JavaScript object has). \<open>keyPath\<close> is
  the path \<^verbatim>\<open>search\<close> gives a key; \<open>ext p q\<close> says that the path \<open>q\<close> is \<open>p\<close> or
  continues \<open>p\<close> with a key or an index; \<open>pathKind\<close> is what two matches must not
  share.
\<close>


definition plainKey :: "string \<Rightarrow> bool" where
  "plainKey k = (k \<noteq> [] \<and> CHR ''.'' \<notin> set k \<and> CHR ''['' \<notin> set k)"

fun plainKeys :: "'n json \<Rightarrow> bool"
  and plainKeysItems :: "'n json list \<Rightarrow> bool"
  and plainKeysEntries :: "(string \<times> 'n json) list \<Rightarrow> bool"
where
  "plainKeys (JArray arr) = plainKeysItems arr"
| "plainKeys (JObject entries) = (distinct (map fst entries) \<and> plainKeysEntries entries)"
| "plainKeys v = True"
| "plainKeysItems [] = True"
| "plainKeysItems (item # rest) = (plainKeys item \<and> plainKeysItems rest)"
| "plainKeysEntries [] = True"
| "plainKeysEntries ((key, val) # rest) = (plainKey key \<and> plainKeys val \<and> plainKeysEntries rest)"

definition keyPath :: "string \<Rightarrow> string \<Rightarrow> string" where
  "keyPath p k = (if p \<noteq> [] then p @ ''.'' @ k else k)"

definition tailOk :: "string \<Rightarrow> bool" where
  "tailOk x = (case x of [] \<Rightarrow> True | c # r \<Rightarrow> c = CHR ''.'' \<or> c = CHR ''['')"

definition ext :: "string \<Rightarrow> string \<Rightarrow> bool" where
  "ext p q = (\<exists>x. q = p @ x \<and> tailOk x)"

definition pathKind :: "searchMatch \<Rightarrow> string \<times> matchType" where
  "pathKind m = (matchPath m, matchKind m)"


text \<open>
  What the key sorter is to keep: two values are the same up to key order when they
  agree on every leaf, every array has the same elements in the same order, and every
  object has the same keys with values that are again the same up to key order.
  \<open>ownKeysKept\<close> holds for the values in which no object has the key
  \<^verbatim>\<open>__proto__\<close> (and every object holds each key once).
\<close>


inductive sameUpToKeyOrder :: "'n json \<Rightarrow> 'n json \<Rightarrow> bool" where
  "sameUpToKeyOrder JNull JNull"
| "sameUpToKeyOrder (JBool b) (JBool b)"
| "sameUpToKeyOrder (JNumber n) (JNumber n)"
| "sameUpToKeyOrder (JString s) (JString s)"
| "list_all2 sameUpToKeyOrder xs ys \<Longrightarrow> sameUpToKeyOrder (JArray xs) (JArray ys)"
| "distinct (map fst fs) \<Longrightarrow> set (map fst fs) = set (map fst es)
   \<Longrightarrow> \<forall>e \<in> set es. \<exists>w. map_of fs (fst e) = Some w \<and> sameUpToKeyOrder (snd e) w
   \<Longrightarrow> sameUpToKeyOrder (JObject es) (JObject fs)"

fun ownKeysKept :: "'n json \<Rightarrow> bool"
  and ownKeysKeptItems :: "'n json list \<Rightarrow> bool"
  and ownKeysKeptEntries :: "(string \<times> 'n json) list \<Rightarrow> bool"
where
  "ownKeysKept (JArray arr) = ownKeysKeptItems arr"
| "ownKeysKept (JObject entries) = (distinct (map fst entries) \<and> ownKeysKeptEntries entries)"
| "ownKeysKept v = True"
| "ownKeysKeptItems [] = True"
| "ownKeysKeptItems (item # rest) = (ownKeysKept item \<and> ownKeysKeptItems rest)"
| "ownKeysKeptEntries [] = True"
| "ownKeysKeptEntries ((key, val) # rest) =
     (key \<noteq> ''__proto__'' \<and> ownKeysKept val \<and> ownKeysKeptEntries rest)"


text \<open>
  A consistent comparison function, as \<^verbatim>\<open>Array.prototype.sort\<close> requires it: any two
  keys compare one way or the other, transitively. \<open>ordered\<close> describes the
  enumeration order of an object: the entries under array indices first, in strictly
  ascending numeric order, then the others.
\<close>

definition consistentCompare :: "('a \<Rightarrow> 'a \<Rightarrow> int) \<Rightarrow> bool" where
  "consistentCompare c =
     ((\<forall>a b. c a b \<le> 0 \<or> c b a \<le> 0)
      \<and> (\<forall>a b d. c a b \<le> 0 \<and> c b d \<le> 0 \<longrightarrow> c a d \<le> 0))"

definition idxEntry :: "string \<times> 'v \<Rightarrow> bool" where
  "idxEntry e = isArrayIndex (fst e)"

definition numLess :: "string \<times> 'v \<Rightarrow> string \<times> 'v \<Rightarrow> bool" where
  "numLess a b = (digitsValue (fst a) < digitsValue (fst b))"

definition ordered :: "(string \<times> 'v) list \<Rightarrow> bool" where
  "ordered obj =
     (\<exists>ia sa. obj = ia @ sa \<and> list_all idxEntry ia \<and> list_all (\<lambda>e. \<not> idxEntry e) sa
        \<and> sorted_wrt numLess ia)"



section \<open>Properties of the search\<close>








lemma ext_refl: "ext p p"
  by (simp add: ext_def tailOk_def)

lemma ext_bracket: "ext (p @ CHR ''['' # s) q \<Longrightarrow> ext p q \<and> q \<noteq> p"
  by (auto simp: ext_def tailOk_def)

lemma ext_dot: "ext (p @ CHR ''.'' # s) q \<Longrightarrow> ext p q \<and> q \<noteq> p"
  by (auto simp: ext_def tailOk_def)

lemma search_paths:
  "p \<noteq> [] \<Longrightarrow> plainKeys v \<Longrightarrow> m \<in> set (search numStr cs q v p)
     \<Longrightarrow> ext p (matchPath m) \<and> (matchPath m = p \<longrightarrow> matchKind m = Value)"
  "plainKeysItems arr \<Longrightarrow> m \<in> set (searchItems numStr cs q arr i p)
     \<Longrightarrow> \<exists>j\<ge>i. ext (p @ ''['' @ showNat j @ '']'') (matchPath m)"
  "plainKeysEntries es \<Longrightarrow> m \<in> set (searchEntries numStr cs q es p)
     \<Longrightarrow> \<exists>k \<in> fst ` set es. ext (keyPath p k) (matchPath m)"
proof (induction numStr cs q v p and numStr cs q arr i p and numStr cs q es p
       arbitrary: m and m and m rule: search_searchItems_searchEntries.induct)
  case (1 numStr caseSensitive searchQuery path)
  then show ?case by (auto simp: Let_def ext_refl split: if_splits)
next
  case (2 numStr caseSensitive searchQuery v path)
  then show ?case by (auto simp: Let_def ext_refl split: if_splits)
next
  case (3 numStr caseSensitive searchQuery n path)
  then show ?case by (auto simp: Let_def ext_refl split: if_splits)
next
  case (4 numStr caseSensitive searchQuery b path)
  then show ?case by (auto simp: Let_def ext_refl split: if_splits)
next
  case (5 numStr caseSensitive searchQuery arr path)
  from 5 obtain j where "ext (path @ ''['' @ showNat j @ '']'') (matchPath m)"
    by fastforce
  then have "ext (path @ CHR ''['' # (showNat j @ '']'')) (matchPath m)" by simp
  from ext_bracket[OF this] show ?case by simp
next
  case (6 numStr caseSensitive searchQuery entries path)
  from 6 obtain k where "ext (keyPath path k) (matchPath m)"
    by fastforce
  with 6(2) have "ext (path @ CHR ''.'' # k) (matchPath m)" by (simp add: keyPath_def)
  from ext_dot[OF this] show ?case by simp
next
  case (7 numStr caseSensitive searchQuery index path)
  then show ?case by simp
next
  case (8 numStr caseSensitive searchQuery item rest index path)
  from 8(4) consider
    (a) "m \<in> set (search numStr caseSensitive searchQuery item (path @ ''['' @ showNat index @ '']''))"
    | (b) "m \<in> set (searchItems numStr caseSensitive searchQuery rest (Suc index) path)"
    by auto
  then show ?case
  proof cases
    case a
    from 8(1)[OF _ _ a] 8(3) have "ext (path @ ''['' @ showNat index @ '']'') (matchPath m)"
      by simp
    then show ?thesis by blast
  next
    case b
    from 8(2)[OF _ b] 8(3) obtain j where "j \<ge> Suc index" "ext (path @ ''['' @ showNat j @ '']'') (matchPath m)"
      by auto
    then show ?thesis by (meson Suc_leD)
  qed
next
  case (9 numStr caseSensitive searchQuery path)
  then show ?case by simp
next
  case (10 numStr caseSensitive searchQuery key val rest path)
  let ?kp = "keyPath path key"
  have kp: "?kp \<noteq> []" using 10(3) by (auto simp: keyPath_def plainKey_def)
  from 10(4) consider
    (a) "matchPath m = ?kp"
    | (b) "m \<in> set (search numStr caseSensitive searchQuery val ?kp)"
    | (c) "m \<in> set (searchEntries numStr caseSensitive searchQuery rest path)"
    by (auto simp: Let_def keyPath_def split: if_splits)
  then show ?case
  proof cases
    case a
    then show ?thesis by (auto simp: ext_refl)
  next
    case b
    have "ext ?kp (matchPath m)"
      using 10(1)[OF refl refl kp[unfolded keyPath_def] _ b[unfolded keyPath_def]] 10(3)
      by (simp add: keyPath_def)
    then show ?thesis by auto
  next
    case c
    from 10(2)[OF refl refl _ c] 10(3) show ?thesis by auto
  qed
qed


lemma of_char_digitChar: "d < 10 \<Longrightarrow> of_char (digitChar d) = (48 + d :: nat)"
  by (simp add: digitChar_def)

lemma digitsValue_snoc: "digitsValue (xs @ [c]) = 10 * digitsValue xs + (of_char c - 48)"
  by (simp add: digitsValue_def)

lemma digitsValue_showNat: "digitsValue (showNat n) = n"
proof (induction n rule: showNat.induct)
  case (1 n)
  show ?case
  proof (cases "n < 10")
    case True
    then show ?thesis
      by (subst showNat.simps) (simp add: digitsValue_def of_char_digitChar)
  next
    case False
    then have "digitsValue (showNat n) = 10 * digitsValue (showNat (n div 10)) + (of_char (digitChar (n mod 10)) - 48)"
      by (subst showNat.simps) (simp add: digitsValue_snoc)
    also have "\<dots> = 10 * (n div 10) + n mod 10"
      using 1[OF False] by (simp add: of_char_digitChar)
    finally show ?thesis by simp
  qed
qed

lemma showNat_inj: "showNat i = showNat j \<Longrightarrow> i = j"
  by (metis digitsValue_showNat)

lemma digitChar_not_bracket: "d < 10 \<Longrightarrow> digitChar d \<noteq> CHR '']''"
proof
  assume "d < 10" "digitChar d = CHR '']''"
  then have "of_char (digitChar d) = (of_char CHR '']'' :: nat)" by simp
  with \<open>d < 10\<close> show False by (simp add: of_char_digitChar)
qed

lemma bracket_not_digitChar: "d < 10 \<Longrightarrow> CHR '']'' \<noteq> digitChar d"
  using digitChar_not_bracket by metis

lemma showNat_no_bracket: "CHR '']'' \<notin> set (showNat n)"
proof (induction n rule: showNat.induct)
  case (1 n)
  show ?case
  proof (cases "n < 10")
    case True
    then show ?thesis by (subst showNat.simps) (simp add: bracket_not_digitChar)
  next
    case False
    then show ?thesis using 1[OF False]
      by (subst showNat.simps) (simp add: bracket_not_digitChar)
  qed
qed

lemma index_paths_differ:
  assumes "ext (p @ ''['' @ showNat i @ '']'') q" "ext (p @ ''['' @ showNat j @ '']'') q"
  shows "i = j"
proof -
  from assms(1) obtain x where x: "q = p @ ''['' @ showNat i @ '']'' @ x"
    by (auto simp: ext_def)
  from assms(2) obtain y where y: "q = p @ ''['' @ showNat j @ '']'' @ y"
    by (auto simp: ext_def)
  from x y have e: "showNat i @ CHR '']'' # x = showNat j @ CHR '']'' # y" by simp
  have tw: "takeWhile (\<lambda>c. c \<noteq> CHR '']'') (showNat n @ CHR '']'' # z) = showNat n" for n z
  proof -
    have "\<forall>c \<in> set (showNat n). c \<noteq> CHR '']''" using showNat_no_bracket[of n] by auto
    then show ?thesis by (simp add: takeWhile_append2)
  qed
  have "takeWhile (\<lambda>c. c \<noteq> CHR '']'') (showNat i @ CHR '']'' # x) = showNat i"
    by (rule tw)
  moreover have "takeWhile (\<lambda>c. c \<noteq> CHR '']'') (showNat j @ CHR '']'' # y) = showNat j"
    by (rule tw)
  ultimately have "showNat i = showNat j" using e by simp
  then show ?thesis by (rule showNat_inj)
qed

lemma stem_plain:
  assumes "plainKey k" "tailOk x"
  shows "takeWhile (\<lambda>c. c \<noteq> CHR ''.'' \<and> c \<noteq> CHR ''['') (k @ x) = k"
proof -
  have "\<forall>c \<in> set k. c \<noteq> CHR ''.'' \<and> c \<noteq> CHR ''[''"
    using assms(1) by (auto simp: plainKey_def)
  moreover have "takeWhile (\<lambda>c. c \<noteq> CHR ''.'' \<and> c \<noteq> CHR ''['') x = []"
    using assms(2) by (cases x) (auto simp: tailOk_def)
  ultimately show ?thesis by (simp add: takeWhile_append2)
qed

lemma key_paths_differ:
  assumes "ext (keyPath p k) q" "ext (keyPath p k') q" "plainKey k" "plainKey k'"
  shows "k = k'"
proof -
  from assms(1,2) obtain x y where x: "tailOk x" and y: "tailOk y"
    and "k @ x = k' @ y"
    by (auto simp: ext_def keyPath_def split: if_splits)
  then show ?thesis using stem_plain[OF assms(3) x] stem_plain[OF assms(4) y] by simp
qed

lemma plainKeysEntries_keys: "plainKeysEntries es \<Longrightarrow> k \<in> fst ` set es \<Longrightarrow> plainKey k"
  by (induction es) force+

lemma disjoint_mapI:
  "(\<And>a b. a \<in> set xs \<Longrightarrow> b \<in> set ys \<Longrightarrow> f a \<noteq> f b)
     \<Longrightarrow> set (map f xs) \<inter> set (map f ys) = {}"
  by (auto simp: image_iff)

lemma search_distinct:
  "plainKeys v \<Longrightarrow> distinct (map pathKind (search numStr cs q v p))"
  "plainKeysItems arr \<Longrightarrow> distinct (map pathKind (searchItems numStr cs q arr i p))"
  "plainKeysEntries es \<Longrightarrow> distinct (map fst es)
     \<Longrightarrow> distinct (map pathKind (searchEntries numStr cs q es p))"
proof (induction numStr cs q v p and numStr cs q arr i p and numStr cs q es p
       rule: search_searchItems_searchEntries.induct)
  case (8 numStr caseSensitive searchQuery item rest index path)
  let ?A = "search numStr caseSensitive searchQuery item (path @ ''['' @ showNat index @ '']'')"
  let ?B = "searchItems numStr caseSensitive searchQuery rest (Suc index) path"
  have dA: "distinct (map pathKind ?A)" using 8 by simp
  have dB: "distinct (map pathKind ?B)" using 8 by simp
  have disj: "set (map pathKind ?A) \<inter> set (map pathKind ?B) = {}"
  proof (rule disjoint_mapI)
    fix a b assume a: "a \<in> set ?A" and b: "b \<in> set ?B"
    from search_paths(1)[OF _ _ a] 8(3)
    have ea: "ext (path @ ''['' @ showNat index @ '']'') (matchPath a)" by simp
    from search_paths(2)[OF _ b] 8(3) obtain j where j: "j \<ge> Suc index"
      and eb: "ext (path @ ''['' @ showNat j @ '']'') (matchPath b)" by auto
    show "pathKind a \<noteq> pathKind b"
    proof
      assume "pathKind a = pathKind b"
      then have "matchPath a = matchPath b" by (simp add: pathKind_def)
      with ea eb have "index = j" using index_paths_differ by metis
      with j show False by simp
    qed
  qed
  from dA dB disj show ?case by simp
next
  case (10 numStr caseSensitive searchQuery key val rest path)
  let ?kp = "keyPath path key"
  let ?K = "if stringIncludes (if caseSensitive then key else toLowerCase key) searchQuery
            then [\<lparr>matchPath = ?kp, matchKind = Key, matchText = key\<rparr>] else []"
  let ?A = "search numStr caseSensitive searchQuery val ?kp"
  let ?B = "searchEntries numStr caseSensitive searchQuery rest path"
  have eq: "searchEntries numStr caseSensitive searchQuery ((key, val) # rest) path = ?K @ ?A @ ?B"
    by (simp add: Let_def keyPath_def)
  have pk: "plainKey key" and pv: "plainKeys val" and pr: "plainKeysEntries rest"
    using 10(3) by simp_all
  have kp: "?kp \<noteq> []" using pk by (auto simp: keyPath_def plainKey_def)
  have fresh: "key \<notin> fst ` set rest" and dr: "distinct (map fst rest)" using 10(4) by auto
  have dA: "distinct (map pathKind ?A)"
    using 10(1)[OF refl refl pv] by (simp add: keyPath_def)
  have dB: "distinct (map pathKind ?B)"
    using 10(2)[OF refl refl pr dr] by simp
  have dK: "distinct (map pathKind ?K)" by simp
  have KA: "set (map pathKind ?K) \<inter> set (map pathKind ?A) = {}"
  proof (rule disjoint_mapI)
    fix k a assume k: "k \<in> set ?K" and a: "a \<in> set ?A"
    from k have kk: "pathKind k = (?kp, Key)" by (auto simp: pathKind_def split: if_splits)
    show "pathKind k \<noteq> pathKind a"
    proof
      assume "pathKind k = pathKind a"
      with kk have "matchPath a = ?kp" "matchKind a = Key" by (simp_all add: pathKind_def)
      with search_paths(1)[OF kp pv a] show False by simp
    qed
  qed
  have toB: "\<And>a b. ext ?kp (matchPath a) \<Longrightarrow> b \<in> set ?B \<Longrightarrow> pathKind a \<noteq> pathKind b"
  proof
    fix a b assume ea: "ext ?kp (matchPath a)" and b: "b \<in> set ?B"
      and "pathKind a = pathKind b"
    then have ab: "matchPath a = matchPath b" by (simp add: pathKind_def)
    from search_paths(3)[OF pr b] obtain k' where k': "k' \<in> fst ` set rest"
      and eb: "ext (keyPath path k') (matchPath b)" by auto
    have "plainKey k'" using plainKeysEntries_keys[OF pr k'] .
    with ea eb ab pk have "key = k'" using key_paths_differ by metis
    with k' fresh show False by simp
  qed
  have KB: "set (map pathKind ?K) \<inter> set (map pathKind ?B) = {}"
  proof (rule disjoint_mapI)
    fix k b assume k: "k \<in> set ?K" and b: "b \<in> set ?B"
    from k have "ext ?kp (matchPath k)" by (auto simp: ext_refl split: if_splits)
    from toB[OF this b] show "pathKind k \<noteq> pathKind b" .
  qed
  have AB: "set (map pathKind ?A) \<inter> set (map pathKind ?B) = {}"
  proof (rule disjoint_mapI)
    fix a b assume a: "a \<in> set ?A" and b: "b \<in> set ?B"
    from search_paths(1)[OF kp pv a] have "ext ?kp (matchPath a)" by simp
    from toB[OF this b] show "pathKind a \<noteq> pathKind b" .
  qed
  from dK dA dB KA KB AB show ?case unfolding eq by (simp add: Int_Un_distrib)
qed (simp_all add: Let_def)

lemma distinct_map_filter_le1:
  "distinct (map f xs) \<Longrightarrow> length (filter (\<lambda>x. f x = y) xs) \<le> 1"
proof (induction xs)
  case Nil
  then show ?case by simp
next
  case (Cons a xs)
  show ?case
  proof (cases "f a = y")
    case True
    have "f a \<notin> f ` set xs" using Cons.prems by simp
    with True have "\<forall>x \<in> set xs. f x \<noteq> y" by (metis image_eqI)
    then have "filter (\<lambda>x. f x = y) xs = []" by (simp add: filter_empty_conv)
    with True show ?thesis by simp
  next
    case False
    with Cons show ?thesis by simp
  qed
qed

text \<open>
  C7, amended: in a value whose object keys are non-empty and hold neither \<^verbatim>\<open>.\<close> nor
  \<^verbatim>\<open>[\<close>, the matches \<^verbatim>\<open>searchJson\<close> returns include, for every path, at most one
  Key match and at most one Value match.
\<close>

theorem C7_unique_match_per_path:
  "plainKeys v \<Longrightarrow>
     length (filter (\<lambda>m. matchPath m = p \<and> matchKind m = kind)
               (searchJson numStr v query caseSensitive)) \<le> 1"
proof -
  assume "plainKeys v"
  then have "distinct (map pathKind (searchJson numStr v query caseSensitive))"
    by (simp add: searchJson_def search_distinct(1))
  from distinct_map_filter_le1[OF this, of "(p, kind)"]
  show ?thesis by (simp add: pathKind_def)
qed


text \<open>
  C7, as stated: at most one Key match per path, for every value. It fails on
  \<^verbatim>\<open>{"a":{"b":1},"a.b":2}\<close> with the query \<^verbatim>\<open>b\<close>: the key \<^verbatim>\<open>b\<close> inside \<^verbatim>\<open>a\<close> and
  the top-level key \<^verbatim>\<open>a.b\<close> both have the path \<^verbatim>\<open>a.b\<close>, and both match.
\<close>

theorem C7_unique_match_counterexample:
  "searchJson intStr (JObject [(''a'', JObject [(''b'', JNumber 1)]), (''a.b'', JNumber 2)]) ''b'' True
     = [\<lparr>matchPath = ''a.b'', matchKind = Key, matchText = ''b''\<rparr>,
        \<lparr>matchPath = ''a.b'', matchKind = Key, matchText = ''a.b''\<rparr>]"
proof -
  have "intStr 1 = ''1''" "intStr 2 = ''2''" by code_simp+
  then show ?thesis by (simp add: searchJson_def Let_def)
qed

theorem C7_unique_match_per_path_witness:
  "plainKeys (JObject [(''a'', JArray [JString ''x'', JString ''xy''])])
   \<and> length (filter (\<lambda>m. matchPath m = ''a[0]'' \<and> matchKind m = Value)
        (searchJson intStr (JObject [(''a'', JArray [JString ''x'', JString ''xy''])]) ''x'' False)) \<le> 1"
  using C7_unique_match_per_path[of "JObject [(''a'', JArray [JString ''x'', JString ''xy''])]" "''a[0]''" Value intStr "''x''" False]
  by (simp add: plainKey_def)

section \<open>Properties of the schema inference\<close>

lemma inferSchemaFromValue_types: "types (inferSchemaFromValue v) = [getJsonType v]"
  by (cases v) (simp_all add: setAdd_def)

lemma inferSchemaFromValue_consistent: "\<not> hasInconsistentTypes (inferSchemaFromValue v)"
  by (cases v) (simp_all add: setAdd_def)

text \<open>
  C1: \<^verbatim>\<open>inferSchema([{"x":1},{"x":"s"}]).inconsistentPaths\<close> contains \<^verbatim>\<open>"[].x"\<close>;
  for \<^verbatim>\<open>[{"x":1},{"x":2}]\<close> and for \<^verbatim>\<open>[{"x":1},{"x":null}]\<close> the list is empty.
\<close>

theorem C1_inconsistency_detection:
  "''[].x'' \<in> set (inconsistentPaths (inferSchema
      (JArray [JObject [(''x'', JNumber (1::int))], JObject [(''x'', JString ''s'')]])))
   \<and> inconsistentPaths (inferSchema
      (JArray [JObject [(''x'', JNumber (1::int))], JObject [(''x'', JNumber 2)]])) = []
   \<and> inconsistentPaths (inferSchema
      (JArray [JObject [(''x'', JNumber (1::int))], JObject [(''x'', JNull)]])) = []"
  by (simp add: inferSchema_def createEmptyNode_def setAdd_def Let_def)

text \<open>
  C2: merging the inferred node of \<open>a\<close> with that of \<open>b\<close>, in either order, gives the
  same set of types and the same \<^verbatim>\<open>hasInconsistentTypes\<close> on the resulting node.
\<close>

theorem C2_merge_commutes_on_types:
  "set (types (mergeSchemaNodes (inferSchemaFromValue a) (inferSchemaFromValue b)))
     = set (types (mergeSchemaNodes (inferSchemaFromValue b) (inferSchemaFromValue a)))
   \<and> hasInconsistentTypes (mergeSchemaNodes (inferSchemaFromValue a) (inferSchemaFromValue b))
     = hasInconsistentTypes (mergeSchemaNodes (inferSchemaFromValue b) (inferSchemaFromValue a))"
  by (auto simp add: inferSchemaFromValue_types setAdd_def Let_def)

lemma collect_shape:
  "q \<in> set (collectInconsistentPaths node p) \<Longrightarrow> p \<noteq> [] \<Longrightarrow>
     (q = p \<and> hasInconsistentTypes node) \<or> (\<exists>r. q = p @ CHR ''.'' # r) \<or> (\<exists>r. q = p @ CHR ''['' # r)"
  "q \<in> set (collectChildren m p) \<Longrightarrow> p \<noteq> [] \<Longrightarrow>
     (\<exists>r. q = p @ CHR ''.'' # r)"
proof (induction node p and m p arbitrary: q and q rule: collectInconsistentPaths_collectChildren.induct)
  case (1 ts cs it occ inconsistent currentPath)
  then show ?case
    by (fastforce split: option.splits if_splits)
next
  case (2 currentPath)
  then show ?case by simp
next
  case (3 key child rest currentPath)
  then show ?case
    by (fastforce split: option.splits if_splits)
qed

lemma collect_nonempty_path_no_root:
  assumes "\<not> hasInconsistentTypes node" "p \<noteq> []"
  shows "''(root)'' \<notin> set (collectInconsistentPaths node p)"
proof
  assume "''(root)'' \<in> set (collectInconsistentPaths node p)"
  from collect_shape(1)[OF this assms(2)] assms(1)
  consider r where "''(root)'' = p @ CHR ''.'' # r" | r where "''(root)'' = p @ CHR ''['' # r"
    by blast
  then show False
  proof cases
    case 1
    then have "CHR ''.'' \<in> set ''(root)''" by (metis in_set_conv_decomp)
    then show False by simp
  next
    case 2
    then have "CHR ''['' \<in> set ''(root)''" by (metis in_set_conv_decomp)
    then show False by simp
  qed
qed

lemma collectChildren_root:
  "\<forall>e \<in> set m. rootFree (snd e) \<Longrightarrow> ''(root)'' \<notin> set (collectChildren m [])"
proof (induction m)
  case Nil
  then show ?case by simp
next
  case (Cons e m)
  obtain k c where e: "e = (k, c)" by (cases e)
  have c: "rootFree c" using Cons.prems e by simp
  have "''(root)'' \<notin> set (collectInconsistentPaths c k)"
  proof (cases "k = []")
    case True
    then show ?thesis using c by (simp add: rootFree_def)
  next
    case False
    then show ?thesis using c collect_nonempty_path_no_root by (simp add: rootFree_def)
  qed
  moreover have "''(root)'' \<notin> set (collectChildren m [])"
    using Cons.IH Cons.prems by simp
  ultimately show ?case using e by simp
qed

lemma set_alist_update_subset:
  "set (AList.update k v al) \<subseteq> insert (k, v) (set al)"
  by (induction al) auto

lemma inferChildren_rootFree:
  "\<forall>e \<in> set m. rootFree (snd e) \<Longrightarrow>
   \<forall>e \<in> set entries. rootFree (inferSchemaFromValue (snd e)) \<Longrightarrow>
   \<forall>e \<in> set (inferChildren entries m). rootFree (snd e)"
proof (induction entries arbitrary: m)
  case Nil
  then show ?case by simp
next
  case (Cons e entries)
  obtain k' v' where e: "e = (k', v')" by (cases e)
  have step: "\<forall>e \<in> set (AList.update k' (inferSchemaFromValue v') m). rootFree (snd e)"
  proof
    fix x assume "x \<in> set (AList.update k' (inferSchemaFromValue v') m)"
    then have "x \<in> insert (k', inferSchemaFromValue v') (set m)"
      using set_alist_update_subset by fastforce
    then show "rootFree (snd x)" using Cons.prems(1,2) e by auto
  qed
  have "\<forall>e \<in> set entries. rootFree (inferSchemaFromValue (snd e))"
    using Cons.prems(2) by simp
  from Cons.IH[OF step this] show ?case using e by simp
qed

lemma infer_rootFree: "rootFree (inferSchemaFromValue v)"
proof (induction v)
  case (JArray arr)
  show ?case
  proof (cases "arr = []")
    case True
    then show ?thesis by (simp add: rootFree_def setAdd_def)
  next
    case False
    have "''(root)'' \<notin> set (collectInconsistentPaths (inferItems arr createEmptyNode) ''[]'')"
    proof
      assume "''(root)'' \<in> set (collectInconsistentPaths (inferItems arr createEmptyNode) ''[]'')"
      from collect_shape(1)[OF this] show False by auto
    qed
    with False show ?thesis by (simp add: rootFree_def setAdd_def)
  qed
next
  case (JObject entries)
  have "\<forall>e \<in> set entries. rootFree (inferSchemaFromValue (snd e))"
  proof
    fix e assume mem: "e \<in> set entries"
    obtain k v where e: "e = (k, v)" by (cases e)
    have "v \<in> Basic_BNFs.snds e" using e by (simp add: snds.simps)
    from JObject.IH[OF mem this] show "rootFree (inferSchemaFromValue (snd e))"
      using e by simp
  qed
  then have "\<forall>e \<in> set (inferChildren entries []). rootFree (snd e)"
    by (intro inferChildren_rootFree) simp_all
  from collectChildren_root[OF this]
  show ?case by (simp add: rootFree_def setAdd_def)
qed (simp_all add: rootFree_def setAdd_def)

text \<open>
  C10: the root node \<^verbatim>\<open>inferSchema\<close> returns has exactly one type and is not flagged
  inconsistent, and the literal path \<^verbatim>\<open>"(root)"\<close> is never reported. A path is empty
  only at the root and below root-level chains of empty keys, where every node comes
  straight from \<^verbatim>\<open>inferSchemaFromValue\<close>, unmerged.
\<close>

theorem C10_root_never_inconsistent:
  "length (types (root (inferSchema v))) = 1
   \<and> hasInconsistentTypes (root (inferSchema v)) = False
   \<and> ''(root)'' \<notin> set (inconsistentPaths (inferSchema v))"
  using infer_rootFree[of v]
  by (simp add: inferSchema_def Let_def rootFree_def inferSchemaFromValue_types)

section \<open>Properties of the converters\<close>

lemma letter_is_word: "isLetterOrUnderscore c \<Longrightarrow> isWordOrHyphen c"
  by (auto simp: isLetterOrUnderscore_def isWordOrHyphen_def Let_def)

lemma underscore_allowed: "isLetterOrUnderscore CHR ''_''" "isWordOrHyphen CHR ''_''"
  by (simp_all add: isLetterOrUnderscore_def isWordOrHyphen_def)

lemma safeTag_Cons:
  "safeTag (c # cs) = (if isLetterOrUnderscore c then c else CHR ''_'')
        # map (\<lambda>x. if isWordOrHyphen x then x else CHR ''_'') cs"
  using underscore_allowed letter_is_word[of c] by (auto simp add: safeTag_def)

lemma toXmlElement_prefix:
  "\<exists>rest. toXmlElement numStr v tagName depth
     = concat (replicate depth ''  '') @ ''<'' @ safeTag tagName @ rest"
  by (cases v) (simp_all add: Let_def)

text \<open>
  C4, as stated: a name that starts with a digit gets an underscore in front, its first
  character kept after it. It fails on \<^verbatim>\<open>"1abc"\<close>: the second \<^verbatim>\<open>replace\<close> overwrites
  the first character, and the tag is \<^verbatim>\<open>_abc\<close>, not \<^verbatim>\<open>_1abc\<close>.
\<close>

theorem C4_sanitize_counterexample: "safeTag ''1abc'' = ''_abc''"
  by (simp add: safeTag_def isWordOrHyphen_def isLetterOrUnderscore_def)

text \<open>
  C4, amended: the sanitized tag has the length of the name; every character outside
  \<^verbatim>\<open>[A-Za-z0-9_-]\<close> is replaced with an underscore, and a first character that is no
  letter or underscore is replaced with an underscore as well (nothing is put in front
  of it). The tag of a non-empty name starts with a letter or an underscore, every
  character of a tag is in \<^verbatim>\<open>[A-Za-z0-9_-]\<close>, and the element \<^verbatim>\<open>toXmlElement\<close> prints
  opens with the sanitized tag after its indentation.
\<close>

theorem C4_sanitize_tag:
  "safeTag [] = []
   \<and> safeTag (c # cs) = (if isLetterOrUnderscore c then c else CHR ''_'')
        # map (\<lambda>x. if isWordOrHyphen x then x else CHR ''_'') cs
   \<and> isLetterOrUnderscore (hd (safeTag (c # cs)))
   \<and> list_all isWordOrHyphen (safeTag tagName)
   \<and> (\<exists>rest. toXmlElement numStr v tagName depth
         = concat (replicate depth ''  '') @ ''<'' @ safeTag tagName @ rest)"
proof -
  have 1: "safeTag [] = []" by (simp add: safeTag_def)
  have 3: "isLetterOrUnderscore (hd (safeTag (c # cs)))"
    using underscore_allowed by (simp add: safeTag_Cons)
  have 4: "list_all isWordOrHyphen (safeTag tagName)"
  proof (cases tagName)
    case Nil
    then show ?thesis by (simp add: 1)
  next
    case (Cons d ds)
    then show ?thesis
      using underscore_allowed letter_is_word[of d] by (auto simp: safeTag_Cons list_all_iff)
  qed
  from 1 safeTag_Cons 3 4 toXmlElement_prefix show ?thesis by blast
qed

lemma joinWith_nonempty: "x \<noteq> [] \<Longrightarrow> joinWith sep (x # xs) \<noteq> []"
  by (simp add: joinWith_def)

lemma quoteJsonString_nonempty: "quoteJsonString s \<noteq> []"
  by (simp add: quoteJsonString_def)

lemma yamlEntries_hd_nonempty:
  "entries \<noteq> [] \<Longrightarrow> \<exists>x xs. yamlEntries numStr entries indent = x # xs \<and> x \<noteq> []"
  by (cases entries) (auto simp: Let_def)

lemma jsonToYaml_nonempty:
  assumes "\<forall>n. numStr n \<noteq> []"
  shows "jsonToYaml numStr v indent \<noteq> []"
proof (cases v)
  case (JObject entries)
  show ?thesis
  proof (cases "entries = []")
    case True
    with JObject show ?thesis by simp
  next
    case False
    from yamlEntries_hd_nonempty[OF this, of numStr indent]
    obtain x xs where "yamlEntries numStr entries indent = x # xs" "x \<noteq> []" by blast
    with JObject False show ?thesis by (simp add: joinWith_def)
  qed
qed (use assms in \<open>auto simp add: quoteJsonString_nonempty needsQuoting_def\<close>)

lemma jsonToXml_nonempty: "jsonToXml numStr v rootName \<noteq> []"
  by (simp add: jsonToXml_def)

lemma showNat_nonempty: "showNat n \<noteq> []"
  by (subst showNat.simps) simp

lemma intStr_nonempty: "intStr n \<noteq> []"
  by (simp add: intStr_def showNat_nonempty)

text \<open>
  What holds of the converters' failure modes: a result \<^verbatim>\<open>jsonToCsv\<close> returns is an
  error result exactly when the top-level value is neither an array nor an object; for
  such a value the call does return, with the fixed error string; and \<^verbatim>\<open>jsonToYaml\<close>
  and \<^verbatim>\<open>jsonToXml\<close>, which have no failing branch, give a non-empty text.
\<close>

lemma jsonToCsv_returned_result:
  "jsonToCsv numStr stringify v = Inr r \<Longrightarrow> success r = isObjectOrArray v"
  by (cases v) (auto simp add: jsonToCsv_def Let_def split: prod.splits sum.splits if_splits)

lemma jsonToCsv_primitive_top_level:
  "\<not> isObjectOrArray v \<Longrightarrow> jsonToCsv numStr stringify v
     = Inr \<lparr>success = False, csv = None,
            error = Some ''CSV export requires an array of objects or a single object''\<rparr>"
  by (cases v) (simp_all add: jsonToCsv_def)

text \<open>
  C6 says that \<^verbatim>\<open>jsonToCsv\<close> fails only for a top-level value that is neither an array
  nor an object, and then by returning an error result, not by throwing. On the array
  \<^verbatim>\<open>[{"toString":1},{}]\<close> the call throws a \<^verbatim>\<open>TypeError\<close>: the column
  \<^verbatim>\<open>toString\<close> comes from the first row, the second row has no own property of that
  name, \<^verbatim>\<open>row[h] ?? ""\<close> reads the function inherited from \<^verbatim>\<open>Object.prototype\<close>
  instead of the empty string, and \<^verbatim>\<open>escapeCsvValue\<close> calls \<^verbatim>\<open>includes\<close> on it.
\<close>

theorem C6_jsonToCsv_throws_on_inherited_column:
  "jsonToCsv intStr stringify (JArray [JObject [(''toString'', JNumber 1)], JObject []])
     = Inl TypeError"
  by (simp add: jsonToCsv_def Let_def setAdd_def objSet_def isArrayIndex_def isDigit_def
      objGet_def objectPrototypeNames_def)

lemma sort_example_headers: "sort [''a.b'', ''c''] = [''a.b'', ''c'']"
  by (simp add: less_char_def less_eq_char_def)

lemma intStr_123: "intStr 1 = ''1''" "intStr 2 = ''2''" "intStr 3 = ''3''"
  by code_simp+

lemma csvRows_example: "csvRows intStr stringify
     [JObject [(''a'', JObject [(''b'', JNumber 1)])],
              JObject [(''a'', JObject [(''b'', JNumber 2)]), (''c'', JNumber 3)]] ([], [])
   = ([[(''a.b'', ''1'')], [(''a.b'', ''2''), (''c'', ''3'')]], [''a.b'', ''c''])"
  by (simp add: setAdd_def objSet_def isArrayIndex_def isDigit_def intStr_123 Let_def)

lemma csvDataRows_example: "csvDataRows [''a.b'', ''c''] [[(''a.b'', ''1'')], [(''a.b'', ''2''), (''c'', ''3'')]]
   = Inr [''1,'', ''2,3'']"
  by (simp add: objGet_def objectPrototypeNames_def escapeCsvValue_def joinWith_def)

text \<open>
  C9: \<^verbatim>\<open>jsonToCsv([{"a":{"b":1}},{"a":{"b":2},"c":3}])\<close> succeeds with the header row
  \<^verbatim>\<open>a.b,c\<close> and the data csvRows_example \<^verbatim>\<open>1,\<close> and \<^verbatim>\<open>2,3\<close>.
\<close>

theorem C9_csv_flattening_example:
  "jsonToCsv intStr stringify
     (JArray [JObject [(''a'', JObject [(''b'', JNumber 1)])],
              JObject [(''a'', JObject [(''b'', JNumber 2)]), (''c'', JNumber 3)]])
   = Inr \<lparr>success = True,
          csv = Some (''a.b,c'' @ [CHR 0x0A] @ ''1,'' @ [CHR 0x0A] @ ''2,3''),
          error = None\<rparr>"
  by (simp add: jsonToCsv_def csvRows_example sort_example_headers csvDataRows_example escapeCsvValue_def joinWith_def
        Let_def del: csvRows.simps csvDataRows.simps csvCells.simps)

section \<open>Properties of the parse-error location\<close>

lemma splitLines_nonempty: "splitLines s \<noteq> []"
  by (induction s) (auto split: list.splits)

lemma length_splitLines: "length (splitLines s) = 1 + countNewlines s"
  using splitLines_nonempty
  by (induction s) (auto simp: countNewlines_def split: list.splits)

lemma splitLines_no_newline: "CHR 0x0A \<notin> set s \<Longrightarrow> splitLines s = [s]"
  by (induction s) auto

lemma last_splitLines_append:
  "last (splitLines (a @ CHR 0x0A # b)) = last (splitLines b)"
proof (induction a)
  case Nil
  then show ?case using splitLines_nonempty by simp
next
  case (Cons c a)
  have "length (splitLines (a @ CHR 0x0A # b)) \<ge> 2"
    by (simp add: length_splitLines countNewlines_def)
  then obtain l m ls where "splitLines (a @ CHR 0x0A # b) = l # m # ls"
    by (cases "splitLines (a @ CHR 0x0A # b)"; cases "tl (splitLines (a @ CHR 0x0A # b))") auto
  with Cons show ?case by auto
qed

lemma lastNewlineIndex_none:
  assumes "CHR 0x0A \<notin> set s"
  shows "lastNewlineIndex s = - 1"
proof -
  have d: "dropWhile (\<lambda>c. c \<noteq> CHR 0x0A) (rev s) = []"
    using assms by auto
  show ?thesis unfolding lastNewlineIndex_def d by simp
qed

lemma lastNewlineIndex_split:
  assumes "CHR 0x0A \<notin> set b"
  shows "lastNewlineIndex (a @ CHR 0x0A # b) = int (length a)"
proof -
  have d: "dropWhile (\<lambda>c. c \<noteq> CHR 0x0A) (rev (a @ CHR 0x0A # b)) = CHR 0x0A # rev a"
    using assms by (auto simp add: dropWhile_append3)
  show ?thesis unfolding lastNewlineIndex_def d by simp
qed

lemma column_formula:
  "int (length (last (splitLines s)) + 1) = int (length s) - lastNewlineIndex s"
proof (cases "CHR 0x0A \<in> set s")
  case False
  then show ?thesis by (simp add: splitLines_no_newline lastNewlineIndex_none)
next
  case True
  then obtain a b where s: "s = a @ CHR 0x0A # b" and b: "CHR 0x0A \<notin> set b"
    using split_list_last by fastforce
  show ?thesis
    using b by (simp add: s last_splitLines_append splitLines_no_newline lastNewlineIndex_split)
qed

text \<open>
  C8, amended: when a position \<open>p\<close> is extracted, the error carries \<open>p\<close>, the line
  \<open>1 +\<close> the number of line feeds in \<^verbatim>\<open>input[0:p]\<close>, and the column
  \<open>min p (length input)\<close> minus the index of the last line feed before \<open>p\<close>
  (\<open>-1\<close> when there is none); when none is extracted, position, line and column are
  unset.
\<close>

theorem C8_error_location:
  "(extractPosition input errorMessage = Some p \<longrightarrow>
      position (parseJsonError describe input errorMessage) = Some p
      \<and> line (parseJsonError describe input errorMessage)
          = Some (1 + countNewlines (take p input))
      \<and> map_option int (column (parseJsonError describe input errorMessage))
          = Some (int (min p (length input)) - lastNewlineIndex (take p input)))
   \<and> (extractPosition input errorMessage = None \<longrightarrow>
      position (parseJsonError describe input errorMessage) = None
      \<and> line (parseJsonError describe input errorMessage) = None
      \<and> column (parseJsonError describe input errorMessage) = None)"
  using column_formula[of "take p input"]
  by (auto simp add: parseJsonError_def Let_def calculateLineAndColumn_def length_splitLines
      split: prod.splits)

lemma extractPosition_example_beyond: "extractPosition [] ''position 5'' = Some 5"
  by (simp add: extractPosition_def matchPosition_def toLowerCase_def lowerChar_def isWhiteSpace_def isDigit_def digitsValue_def Let_def)

text \<open>
  C8, as stated: the column is \<open>p\<close> minus the index of the last line feed before
  \<open>p\<close>. It fails when \<open>p\<close> lies beyond the end of the input, where
  \<^verbatim>\<open>substring(0, p)\<close> stops at the end: on the empty input and position 5 the column
  is 1, not 6.
\<close>

theorem C8_error_location_counterexample:
  "extractPosition [] ''position 5'' = Some 5
   \<and> lastNewlineIndex (take 5 []) = - 1
   \<and> column (parseJsonError noDescription [] ''position 5'') = Some 1"
  by (simp add: extractPosition_example_beyond parseJsonError_def noDescription_def calculateLineAndColumn_def lastNewlineIndex_def)

lemma extractPosition_example_found: "extractPosition [CHR ''a'', CHR 0x0A, CHR ''b'', CHR ''c''] ''Unexpected token b in JSON at position 3'' = Some 3"
  by (simp add: extractPosition_def matchPosition_def toLowerCase_def lowerChar_def isWhiteSpace_def isDigit_def digitsValue_def Let_def)

lemma extractPosition_example_absent: "extractPosition [CHR ''a'', CHR 0x0A, CHR ''b'', CHR ''c''] ''Unexpected end of JSON input'' = None"
  by (simp add: extractPosition_def matchPosition_def toLowerCase_def lowerChar_def isWhiteSpace_def isDigit_def digitsValue_def Let_def)

theorem C8_error_location_witness:
  "position (parseJsonError noDescription [CHR ''a'', CHR 0x0A, CHR ''b'', CHR ''c'']
      ''Unexpected token b in JSON at position 3'') = Some 3
   \<and> line (parseJsonError noDescription [CHR ''a'', CHR 0x0A, CHR ''b'', CHR ''c'']
      ''Unexpected token b in JSON at position 3'') = Some 2
   \<and> map_option int (column (parseJsonError noDescription [CHR ''a'', CHR 0x0A, CHR ''b'', CHR ''c'']
      ''Unexpected token b in JSON at position 3'')) = Some 2
   \<and> position (parseJsonError noDescription [CHR ''a'', CHR 0x0A, CHR ''b'', CHR ''c'']
      ''Unexpected end of JSON input'') = None
   \<and> line (parseJsonError noDescription [CHR ''a'', CHR 0x0A, CHR ''b'', CHR ''c'']
      ''Unexpected end of JSON input'') = None
   \<and> column (parseJsonError noDescription [CHR ''a'', CHR 0x0A, CHR ''b'', CHR ''c'']
      ''Unexpected end of JSON input'') = None"
  using C8_error_location[of "[CHR ''a'', CHR 0x0A, CHR ''b'', CHR ''c'']" "''Unexpected token b in JSON at position 3''" 3 noDescription]
        C8_error_location[of "[CHR ''a'', CHR 0x0A, CHR ''b'', CHR ''c'']" "''Unexpected end of JSON input''" 0 noDescription]
        extractPosition_example_found extractPosition_example_absent
  by (simp add: countNewlines_def lastNewlineIndex_def)

section \<open>Properties of the key sorter\<close>

lemma set_insertIndexKey: "set (insertIndexKey k v obj) = insert (k, v) (set obj)"
proof (induction obj)
  case Nil
  then show ?case by simp
next
  case (Cons e obj)
  obtain a b where e: "e = (a, b)" by (cases e)
  show ?case
    using Cons by (cases "isArrayIndex a \<and> digitsValue a < digitsValue k") (auto simp: e)
qed

lemma insertIndexKey_keys: "fst ` set (insertIndexKey k v obj) = insert k (fst ` set obj)"
  by (simp add: set_insertIndexKey)

lemma insertIndexKey_distinct:
  "k \<notin> fst ` set obj \<Longrightarrow> distinct (map fst obj) \<Longrightarrow> distinct (map fst (insertIndexKey k v obj))"
proof (induction obj)
  case Nil
  then show ?case by simp
next
  case (Cons e obj)
  obtain a b where e: "e = (a, b)" by (cases e)
  show ?case
    using Cons insertIndexKey_keys[of k v obj]
    by (cases "isArrayIndex a \<and> digitsValue a < digitsValue k") (auto simp: e)
qed

lemma insertIndexKey_map_of:
  "k \<notin> fst ` set obj \<Longrightarrow> map_of (insertIndexKey k v obj) = (map_of obj)(k \<mapsto> v)"
proof (induction obj)
  case Nil
  then show ?case by simp
next
  case (Cons e obj)
  obtain a b where e: "e = (a, b)" by (cases e)
  show ?case
    using Cons
    by (cases "isArrayIndex a \<and> digitsValue a < digitsValue k") (auto simp: e fun_eq_iff)
qed

lemma map_of_None_keys: "(map_of obj k = None) = (k \<notin> fst ` set obj)"
  by (simp add: map_of_eq_None_iff)

lemma objSet_keys:
  assumes "k \<noteq> ''__proto__''"
  shows "fst ` set (objSet k v obj) = insert k (fst ` set obj)"
proof (cases "k \<in> fst ` set obj")
  case True
  then have "objSet k v obj = AList.update k v obj"
    using assms by (simp add: objSet_def map_of_None_keys)
  then show ?thesis using True by (auto simp: dom_update)
next
  case False
  then show ?thesis
    using assms by (auto simp: objSet_def map_of_None_keys insertIndexKey_keys)
qed

lemma objSet_distinct:
  assumes "distinct (map fst obj)"
  shows "distinct (map fst (objSet k v obj))"
proof (cases "k \<in> fst ` set obj")
  case True
  then show ?thesis
    using assms by (simp add: objSet_def map_of_None_keys distinct_update)
next
  case False
  then show ?thesis
    using assms by (simp add: objSet_def map_of_None_keys insertIndexKey_distinct)
qed

lemma objSet_map_of:
  assumes "k \<noteq> ''__proto__''"
  shows "map_of (objSet k v obj) = (map_of obj)(k \<mapsto> v)"
proof (cases "k \<in> fst ` set obj")
  case True
  then show ?thesis
    using assms by (simp add: objSet_def map_of_None_keys update_conv')
next
  case False
  then have "map_of obj k = None" by (simp add: map_of_None_keys)
  then have "map_of (obj @ [(k, v)]) = (map_of obj)(k \<mapsto> v)"
    by (auto simp: fun_eq_iff map_add_def split: option.splits)
  then show ?thesis
    using assms False by (simp add: objSet_def map_of_None_keys insertIndexKey_map_of)
qed

lemma set_insortBy: "set (insortBy c x xs) = insert x (set xs)"
  by (induction xs) auto

lemma set_sortBy: "set (sortBy c xs) = set xs"
  by (induction xs) (simp_all add: sortBy_def set_insortBy)

lemma sortedAssign_keys:
  "''__proto__'' \<notin> set keys \<Longrightarrow> set keys \<subseteq> fst ` set es
   \<Longrightarrow> fst ` set (sortedAssign c es keys acc) = set keys \<union> fst ` set acc"
proof (induction keys arbitrary: acc)
  case Nil
  then show ?case by simp
next
  case (Cons k keys)
  have "k \<in> fst ` set es" using Cons.prems by simp
  then have "map_of es k \<noteq> None" by (simp add: map_of_None_keys)
  then obtain v where v: "map_of es k = Some v" by blast
  have "k \<noteq> ''__proto__''" using Cons.prems by auto
  then show ?case using Cons v by (simp add: objSet_keys)
qed

lemma sortedAssign_distinct:
  "distinct (map fst acc) \<Longrightarrow> distinct (map fst (sortedAssign c es keys acc))"
proof (induction keys arbitrary: acc)
  case Nil
  then show ?case by simp
next
  case (Cons k keys)
  then show ?case by (cases "map_of es k") (simp_all add: objSet_distinct)
qed

lemma sortedAssign_map_of:
  "''__proto__'' \<notin> set keys \<Longrightarrow> k \<in> set keys \<Longrightarrow> map_of es k = Some v
   \<Longrightarrow> map_of (sortedAssign c es keys acc) k = Some (sortObjectKeys c v)"
proof (induction keys arbitrary: acc)
  case Nil
  then show ?case by simp
next
  case (Cons k' keys)
  have np: "k' \<noteq> ''__proto__''" using Cons.prems by auto
  show ?case
  proof (cases "k \<in> set keys")
    case True
    then show ?thesis using Cons by (cases "map_of es k'") simp_all
  next
    case False
    with Cons.prems have kk: "k' = k" by simp
    have keep: "map_of (sortedAssign c es keys acc') k = map_of acc' k" for acc'
      using False Cons.prems(1)
    proof (induction keys arbitrary: acc')
      case Nil
      then show ?case by simp
    next
      case (Cons a keys)
      then show ?case by (cases "map_of es a") (auto simp: objSet_map_of)
    qed
    show ?thesis using Cons.prems(3) kk np by (simp add: keep objSet_map_of)
  qed
qed

lemma ownKeysKeptEntries_mem:
  "ownKeysKeptEntries es \<Longrightarrow> (k, v) \<in> set es \<Longrightarrow> k \<noteq> ''__proto__'' \<and> ownKeysKept v"
  by (induction es) auto

lemma ownKeysKeptItems_mem: "ownKeysKeptItems arr \<Longrightarrow> x \<in> set arr \<Longrightarrow> ownKeysKept x"
  by (induction arr) auto

text \<open>
  Apart from that key the sorter keeps the value: when no object has the key
  \<^verbatim>\<open>__proto__\<close>, the result is the input up to the order of object keys.
\<close>

lemma sortObjectKeys_keeps_values:
  "ownKeysKept v \<Longrightarrow> sameUpToKeyOrder v (sortObjectKeys c v)"
proof (induction v)
  case (JArray arr)
  have "list_all2 sameUpToKeyOrder arr (map (sortObjectKeys c) arr)"
    unfolding list_all2_map2 list_all2_same
  proof
    fix x assume "x \<in> set arr"
    then show "sameUpToKeyOrder x (sortObjectKeys c x)"
      using JArray ownKeysKeptItems_mem by auto
  qed
  then show ?case by (simp add: sameUpToKeyOrder.intros)
next
  case (JObject es)
  let ?K = "sortBy c (map fst es)"
  let ?fs = "sortedAssign c es ?K []"
  have d: "distinct (map fst es)" and ok: "ownKeysKeptEntries es" using JObject.prems by simp_all
  have np: "''__proto__'' \<notin> set ?K"
    using ok ownKeysKeptEntries_mem by (fastforce simp: set_sortBy)
  have sub: "set ?K \<subseteq> fst ` set es" by (simp add: set_sortBy)
  have 1: "distinct (map fst ?fs)" by (simp add: sortedAssign_distinct)
  have 2: "set (map fst ?fs) = set (map fst es)"
    using sortedAssign_keys[OF np sub, of c "[]"] by (simp add: set_sortBy)
  have 3: "\<forall>e \<in> set es. \<exists>w. map_of ?fs (fst e) = Some w \<and> sameUpToKeyOrder (snd e) w"
  proof
    fix e assume mem: "e \<in> set es"
    obtain k v where e: "e = (k, v)" by (cases e)
    have lk: "map_of es k = Some v" using d mem e by simp
    have kK: "k \<in> set ?K" using mem e by (force simp: set_sortBy)
    have m: "map_of ?fs k = Some (sortObjectKeys c v)"
      using sortedAssign_map_of[OF np kK lk] .
    have "v \<in> Basic_BNFs.snds e" using e by (simp add: snds.simps)
    from JObject.IH[OF mem this] ownKeysKeptEntries_mem[OF ok] mem e
    have "sameUpToKeyOrder v (sortObjectKeys c v)" by blast
    with m e show "\<exists>w. map_of ?fs (fst e) = Some w \<and> sameUpToKeyOrder (snd e) w" by simp
  qed
  from 1 2 3 show ?case by (simp add: Let_def sameUpToKeyOrder.intros)
qed (simp_all add: sameUpToKeyOrder.intros)

lemma insortBy_first: "\<forall>z \<in> set zs. c x z \<le> 0 \<Longrightarrow> insortBy c x zs = x # zs"
  by (cases zs) simp_all

lemma sorted_insortBy:
  assumes "consistentCompare c"
  shows "sorted_wrt (\<lambda>a b. c a b \<le> 0) xs \<Longrightarrow> sorted_wrt (\<lambda>a b. c a b \<le> 0) (insortBy c x xs)"
proof (induction xs)
  case Nil
  then show ?case by simp
next
  case (Cons y ys)
  show ?case
  proof (cases "c x y \<le> 0")
    case True
    have "\<forall>z \<in> set ys. c x z \<le> 0"
      using True Cons.prems assms unfolding consistentCompare_def by (metis sorted_wrt.simps(2))
    with True Cons.prems show ?thesis by simp
  next
    case False
    then have "c y x \<le> 0" using assms unfolding consistentCompare_def by metis
    with False Cons show ?thesis by (auto simp: set_insortBy)
  qed
qed

lemma sorted_sortBy:
  "consistentCompare c \<Longrightarrow> sorted_wrt (\<lambda>a b. c a b \<le> 0) (sortBy c xs)"
  by (induction xs) (simp_all add: sortBy_def sorted_insortBy)

lemma sortBy_sorted:
  "sorted_wrt (\<lambda>a b. c a b \<le> 0) xs \<Longrightarrow> sortBy c xs = xs"
proof (induction xs)
  case Nil
  then show ?case by (simp add: sortBy_def)
next
  case (Cons x xs)
  then have "sortBy c xs = xs" by simp
  then have "sortBy c (x # xs) = insortBy c x xs" by (simp add: sortBy_def)
  also have "\<dots> = x # xs" using Cons.prems by (simp add: insortBy_first)
  finally show ?case .
qed

lemma filter_insortBy:
  assumes "consistentCompare c"
  shows "sorted_wrt (\<lambda>a b. c a b \<le> 0) ys \<Longrightarrow>
     filter P (insortBy c x ys) = (if P x then insortBy c x (filter P ys) else filter P ys)"
proof (induction ys)
  case Nil
  then show ?case by simp
next
  case (Cons y ys)
  show ?case
  proof (cases "c x y \<le> 0")
    case True
    have "\<forall>z \<in> set (y # ys). c x z \<le> 0"
      using True Cons.prems assms unfolding consistentCompare_def
      by (metis set_ConsD sorted_wrt.simps(2))
    then have "\<forall>z \<in> set (filter P (y # ys)). c x z \<le> 0" by simp
    then have "insortBy c x (filter P (y # ys)) = x # filter P (y # ys)"
      by (rule insortBy_first)
    with True show ?thesis by simp
  next
    case False
    with Cons show ?thesis by simp
  qed
qed

lemma filter_sortBy:
  assumes "consistentCompare c"
  shows "filter P (sortBy c xs) = sortBy c (filter P xs)"
proof (induction xs)
  case Nil
  then show ?case by (simp add: sortBy_def)
next
  case (Cons x xs)
  have "filter P (sortBy c (x # xs)) = filter P (insortBy c x (sortBy c xs))"
    by (simp add: sortBy_def)
  also have "\<dots> = (if P x then insortBy c x (filter P (sortBy c xs)) else filter P (sortBy c xs))"
    using filter_insortBy[OF assms sorted_sortBy[OF assms]] by simp
  also have "\<dots> = sortBy c (filter P (x # xs))"
    using Cons by (simp add: sortBy_def)
  finally show ?case .
qed

lemma distinct_insortBy: "distinct (insortBy c x xs) = (x \<notin> set xs \<and> distinct xs)"
  by (induction xs) (auto simp: set_insortBy)

lemma distinct_sortBy: "distinct (sortBy c xs) = distinct xs"
  by (induction xs) (simp_all add: sortBy_def distinct_insortBy set_sortBy[unfolded sortBy_def])

lemma digitChar_of_digit: "isDigit d \<Longrightarrow> digitChar (of_char d - 48) = d"
proof -
  assume "isDigit d"
  then have "48 \<le> (of_char d :: nat)" by (simp add: isDigit_def Let_def)
  then have "48 + (of_char d - 48) = (of_char d :: nat)" by simp
  then show ?thesis by (simp add: digitChar_def)
qed

lemma digit_value_less: "isDigit d \<Longrightarrow> (of_char d :: nat) - 48 < 10"
  by (auto simp: isDigit_def Let_def)

lemma showNat_zero: "showNat 0 = ''0''"
  by code_simp

lemma showNat_canonical:
  "s \<noteq> [] \<Longrightarrow> list_all isDigit s \<Longrightarrow> (hd s = CHR ''0'' \<longrightarrow> s = ''0'')
     \<Longrightarrow> showNat (digitsValue s) = s"
proof (induction s rule: rev_induct)
  case Nil
  then show ?case by simp
next
  case (snoc d xs)
  have d: "isDigit d" using snoc.prems by simp
  show ?case
  proof (cases "xs = []")
    case True
    then have "digitsValue (xs @ [d]) = of_char d - 48" by (simp add: digitsValue_def)
    then show ?thesis
      using True d digit_value_less[OF d]
      by (subst showNat.simps) (simp add: digitChar_of_digit)
  next
    case False
    then have hd: "hd (xs @ [d]) = hd xs" by simp
    have nz: "hd xs \<noteq> CHR ''0''"
    proof
      assume "hd xs = CHR ''0''"
      with hd snoc.prems(3) have "xs @ [d] = ''0''" by simp
      with False show False by (cases xs) simp_all
    qed
    have ih: "showNat (digitsValue xs) = xs"
      using snoc.IH False snoc.prems(2) nz by simp
    have pos: "digitsValue xs \<noteq> 0"
    proof
      assume "digitsValue xs = 0"
      with ih have "xs = ''0''" by (simp add: showNat_zero)
      with nz show False by simp
    qed
    let ?n = "10 * digitsValue xs + (of_char d - 48)"
    have n: "digitsValue (xs @ [d]) = ?n" by (simp add: digitsValue_def)
    have "\<not> ?n < 10" using pos by simp
    then have "showNat ?n = showNat (?n div 10) @ [digitChar (?n mod 10)]"
      by (subst showNat.simps) simp
    also have "?n div 10 = digitsValue xs" using digit_value_less[OF d] by simp
    also have "?n mod 10 = of_char d - 48" using digit_value_less[OF d] by simp
    finally show ?thesis using ih d by (simp add: n digitChar_of_digit)
  qed
qed

lemma isArrayIndex_canonical:
  assumes "isArrayIndex s"
  shows "showNat (digitsValue s) = s"
proof -
  have 1: "s \<noteq> []" using assms by (simp add: isArrayIndex_def)
  have 2: "list_all isDigit s" using assms by (simp add: isArrayIndex_def)
  have 3: "hd s = CHR ''0'' \<longrightarrow> s = ''0''"
    using assms by (cases "hd s = CHR ''0''") (simp_all add: isArrayIndex_def)
  show ?thesis by (rule showNat_canonical[OF 1 2 3])
qed

lemma digitsValue_inj:
  assumes "isArrayIndex s" "isArrayIndex t" "digitsValue s = digitsValue t"
  shows "s = t"
proof -
  have "s = showNat (digitsValue s)" using isArrayIndex_canonical[OF assms(1)] by (rule sym)
  also have "\<dots> = showNat (digitsValue t)" by (simp only: assms(3))
  also have "\<dots> = t" using assms(2) by (rule isArrayIndex_canonical)
  finally show ?thesis .
qed

lemma ordered_Nil: "ordered []"
  by (simp add: ordered_def)

lemma ordered_split:
  assumes "ordered obj"
  shows "obj = filter idxEntry obj @ filter (\<lambda>e. \<not> idxEntry e) obj"
    and "sorted_wrt numLess (filter idxEntry obj)"
proof -
  from assms obtain ia sa where o: "obj = ia @ sa" "list_all idxEntry ia"
    "list_all (\<lambda>e. \<not> idxEntry e) sa" "sorted_wrt numLess ia"
    unfolding ordered_def by blast
  have ia: "filter idxEntry obj = ia"
    using o(1,2,3) by (simp add: list_all_iff filter_id_conv filter_empty_conv)
  have sa: "filter (\<lambda>e. \<not> idxEntry e) obj = sa"
    using o(1,2,3) by (simp add: list_all_iff filter_id_conv filter_empty_conv)
  show "obj = filter idxEntry obj @ filter (\<lambda>e. \<not> idxEntry e) obj"
    using ia sa o(1) by simp
  show "sorted_wrt numLess (filter idxEntry obj)" using ia o(4) by simp
qed

lemma insertIndexKey_append:
  "list_all idxEntry ia \<Longrightarrow> list_all (\<lambda>e. \<not> idxEntry e) sa
     \<Longrightarrow> insertIndexKey k v (ia @ sa) = insertIndexKey k v ia @ sa"
proof (induction ia)
  case Nil
  then show ?case by (cases sa) (auto simp: idxEntry_def)
next
  case (Cons e ia)
  obtain a b where e: "e = (a, b)" by (cases e)
  show ?case using Cons by (simp add: e)
qed

lemma insertIndexKey_sorted:
  assumes k: "isArrayIndex k"
  shows "list_all idxEntry ia \<Longrightarrow> k \<notin> fst ` set ia \<Longrightarrow> sorted_wrt numLess ia
     \<Longrightarrow> sorted_wrt numLess (insertIndexKey k v ia) \<and> list_all idxEntry (insertIndexKey k v ia)"
proof (induction ia)
  case Nil
  then show ?case using k by (simp add: idxEntry_def)
next
  case (Cons e ia)
  obtain a b where e: "e = (a, b)" by (cases e)
  have a: "isArrayIndex a" and ak: "a \<noteq> k" using Cons.prems e by (auto simp: idxEntry_def)
  have ih: "sorted_wrt numLess (insertIndexKey k v ia) \<and> list_all idxEntry (insertIndexKey k v ia)"
    using Cons by simp
  show ?case
  proof (cases "digitsValue a < digitsValue k")
    case True
    have "\<forall>x \<in> set (insertIndexKey k v ia). numLess (a, b) x"
      using True Cons.prems(3) e by (auto simp: set_insertIndexKey numLess_def)
    with True a ih Cons.prems(1) show ?thesis by (simp add: e)
  next
    case False
    have "digitsValue a \<noteq> digitsValue k" using digitsValue_inj[OF a k] ak by blast
    with False have lt: "digitsValue k < digitsValue a" by simp
    have "\<forall>x \<in> set ia. numLess (k, v) x"
      using lt Cons.prems(3) e by (fastforce simp: numLess_def)
    with lt False k Cons.prems show ?thesis by (simp add: e numLess_def idxEntry_def)
  qed
qed

lemma objSet_ordered:
  assumes "ordered obj" "k \<notin> fst ` set obj" "k \<noteq> ''__proto__''"
  shows "ordered (objSet k v obj)"
    and "filter (\<lambda>e. \<not> idxEntry e) (objSet k v obj)
           = filter (\<lambda>e. \<not> idxEntry e) obj @ (if isArrayIndex k then [] else [(k, v)])"
proof -
  from assms(1) obtain ia sa where o: "obj = ia @ sa" "list_all idxEntry ia"
    "list_all (\<lambda>e. \<not> idxEntry e) sa" "sorted_wrt numLess ia"
    unfolding ordered_def by blast
  have none: "map_of obj k = None" using assms(2) by (simp add: map_of_None_keys)
  have "ordered (objSet k v obj) \<and> filter (\<lambda>e. \<not> idxEntry e) (objSet k v obj)
           = filter (\<lambda>e. \<not> idxEntry e) obj @ (if isArrayIndex k then [] else [(k, v)])"
  proof (cases "isArrayIndex k")
    case True
    have eq: "objSet k v obj = insertIndexKey k v ia @ sa"
      using True none assms(3) o by (simp add: objSet_def insertIndexKey_append)
    have kia: "k \<notin> fst ` set ia" using assms(2) o(1) by auto
    from insertIndexKey_sorted[OF True o(2) kia o(4), of v]
    have s: "sorted_wrt numLess (insertIndexKey k v ia)" "list_all idxEntry (insertIndexKey k v ia)"
      by simp_all
    have "ordered (insertIndexKey k v ia @ sa)"
      unfolding ordered_def using s o(3) by blast
    moreover have "filter (\<lambda>e. \<not> idxEntry e) (insertIndexKey k v ia @ sa)
        = filter (\<lambda>e. \<not> idxEntry e) (ia @ sa)"
      using s(2) o(2) by (simp add: list_all_iff filter_empty_conv)
    ultimately show ?thesis using True eq o(1) by simp
  next
    case False
    have eq: "objSet k v obj = ia @ (sa @ [(k, v)])"
      using False none assms(3) o by (simp add: objSet_def)
    have "list_all (\<lambda>e. \<not> idxEntry e) (sa @ [(k, v)])"
      using o(3) False by (simp add: idxEntry_def)
    with o(2,4) have "ordered (ia @ (sa @ [(k, v)]))"
      unfolding ordered_def by blast
    then show ?thesis using False eq o(1) by (simp add: idxEntry_def)
  qed
  then show "ordered (objSet k v obj)"
    and "filter (\<lambda>e. \<not> idxEntry e) (objSet k v obj)
           = filter (\<lambda>e. \<not> idxEntry e) obj @ (if isArrayIndex k then [] else [(k, v)])"
    by simp_all
qed

lemma sortedAssign_ordered:
  "distinct keys \<Longrightarrow> set keys \<inter> fst ` set acc = {} \<Longrightarrow> ''__proto__'' \<notin> set keys
   \<Longrightarrow> set keys \<subseteq> fst ` set es \<Longrightarrow> ordered acc
   \<Longrightarrow> ordered (sortedAssign c es keys acc)
       \<and> filter (\<lambda>e. \<not> idxEntry e) (sortedAssign c es keys acc)
           = filter (\<lambda>e. \<not> idxEntry e) acc
             @ map (\<lambda>k. (k, sortObjectKeys c (the (map_of es k))))
                 (filter (\<lambda>k. \<not> isArrayIndex k) keys)"
proof (induction keys arbitrary: acc)
  case Nil
  then show ?case by simp
next
  case (Cons k keys)
  have "k \<in> fst ` set es" using Cons.prems by simp
  then have "map_of es k \<noteq> None" by (simp add: map_of_None_keys)
  then obtain v where v: "map_of es k = Some v" by blast
  have np: "k \<noteq> ''__proto__''" using Cons.prems by auto
  have kacc: "k \<notin> fst ` set acc" using Cons.prems by auto
  let ?acc = "objSet k (sortObjectKeys c v) acc"
  have o: "ordered ?acc" using objSet_ordered(1)[OF Cons.prems(5) kacc np] .
  have f: "filter (\<lambda>e. \<not> idxEntry e) ?acc = filter (\<lambda>e. \<not> idxEntry e) acc
              @ (if isArrayIndex k then [] else [(k, sortObjectKeys c v)])"
    using objSet_ordered(2)[OF Cons.prems(5) kacc np] .
  have disj: "set keys \<inter> fst ` set ?acc = {}"
    using Cons.prems(1,2) by (auto simp: objSet_keys[OF np])
  have "ordered (sortedAssign c es keys ?acc)
       \<and> filter (\<lambda>e. \<not> idxEntry e) (sortedAssign c es keys ?acc)
           = filter (\<lambda>e. \<not> idxEntry e) ?acc
             @ map (\<lambda>k. (k, sortObjectKeys c (the (map_of es k))))
                 (filter (\<lambda>k. \<not> isArrayIndex k) keys)"
    using Cons.IH[OF _ disj _ _ o] Cons.prems by simp
  then show ?case using v f by simp
qed

lemma numLess_unique:
  assumes "sorted_wrt numLess xs" "sorted_wrt numLess ys" "set xs = set ys"
  shows "xs = ys"
proof -
  let ?f = "\<lambda>e. digitsValue (fst e)"
  have sx: "sorted_wrt (<) (map ?f xs)" and sy: "sorted_wrt (<) (map ?f ys)"
    using assms(1,2) by (simp_all add: sorted_wrt_map numLess_def[abs_def])
  then have dx: "distinct (map ?f xs)" and dy: "distinct (map ?f ys)"
    and ox: "sorted (map ?f xs)" and oy: "sorted (map ?f ys)"
    by (simp_all add: strict_sorted_iff)
  have "inj_on ?f (set xs \<union> set ys)" using dx assms(3) by (simp add: distinct_map)
  from map_sorted_distinct_set_unique[OF this ox dx oy dy assms(3)] show ?thesis .
qed

lemma ordered_unique:
  assumes "ordered fs" "ordered gs" "distinct (map fst fs)" "distinct (map fst gs)"
    "map_of fs = map_of gs"
    "filter (\<lambda>e. \<not> idxEntry e) fs = filter (\<lambda>e. \<not> idxEntry e) gs"
  shows "fs = gs"
proof -
  have "set fs = set gs" using assms(3,4,5) by (simp add: map_of_inject_set)
  then have "set (filter idxEntry fs) = set (filter idxEntry gs)" by simp
  with ordered_split(2)[OF assms(1)] ordered_split(2)[OF assms(2)]
  have "filter idxEntry fs = filter idxEntry gs" by (rule numLess_unique)
  with ordered_split(1)[OF assms(1)] ordered_split(1)[OF assms(2)] assms(6)
  show ?thesis by metis
qed

text \<open>
  With a consistent comparison, and again when no object has the key \<^verbatim>\<open>__proto__\<close>,
  sorting twice is sorting once.
\<close>

lemma sortObjectKeys_idempotent:
  assumes c: "consistentCompare c"
  shows "ownKeysKept v \<Longrightarrow> sortObjectKeys c (sortObjectKeys c v) = sortObjectKeys c v"
proof (induction v)
  case (JArray arr)
  have "\<forall>x \<in> set arr. sortObjectKeys c (sortObjectKeys c x) = sortObjectKeys c x"
    using JArray ownKeysKeptItems_mem by auto
  then show ?case by simp
next
  case (JObject es)
  let ?s = "sortObjectKeys c"
  let ?nidx = "\<lambda>e :: string \<times> 'a json. \<not> idxEntry e"
  let ?nonIdx = "\<lambda>k. \<not> isArrayIndex k"
  let ?K = "sortBy c (map fst es)"
  let ?fs = "sortedAssign c es ?K []"
  let ?K' = "sortBy c (map fst ?fs)"
  let ?gs = "sortedAssign c ?fs ?K' []"
  have d: "distinct (map fst es)" and ok: "ownKeysKeptEntries es" using JObject.prems by simp_all
  have ih: "?s (?s v) = ?s v" if "(k, v) \<in> set es" for k v
  proof -
    have "v \<in> Basic_BNFs.snds (k, v)" by (simp add: snds.simps)
    from JObject.IH[OF that this] ownKeysKeptEntries_mem[OF ok that] show ?thesis by simp
  qed
  \<comment> \<open>the first pass\<close>
  have Kd: "distinct ?K" using d by (simp add: distinct_sortBy)
  have Knp: "''__proto__'' \<notin> set ?K"
    using ok ownKeysKeptEntries_mem by (fastforce simp: set_sortBy)
  have Ksub: "set ?K \<subseteq> fst ` set es" by (simp add: set_sortBy)
  have F: "ordered ?fs"
    "filter ?nidx ?fs = map (\<lambda>k. (k, ?s (the (map_of es k)))) (filter ?nonIdx ?K)"
    using sortedAssign_ordered[OF Kd _ Knp Ksub ordered_Nil, of c] by simp_all
  have F3: "distinct (map fst ?fs)" by (simp add: sortedAssign_distinct)
  have F4: "fst ` set ?fs = fst ` set es"
    using sortedAssign_keys[OF Knp Ksub, of c "[]"] by (simp add: set_sortBy)
  have F5: "map_of ?fs k = Some (?s v)" if "(k, v) \<in> set es" for k v
  proof -
    have "map_of es k = Some v" using d that by simp
    moreover have "k \<in> set ?K" using that by (force simp: set_sortBy)
    ultimately show ?thesis using sortedAssign_map_of[OF Knp] by blast
  qed
  \<comment> \<open>the second pass\<close>
  have K'd: "distinct ?K'" using F3 by (simp add: distinct_sortBy)
  have K'np: "''__proto__'' \<notin> set ?K'"
    using Knp F4 by (simp add: set_sortBy)
  have K'sub: "set ?K' \<subseteq> fst ` set ?fs" by (simp add: set_sortBy)
  have G: "ordered ?gs"
    "filter ?nidx ?gs = map (\<lambda>k. (k, ?s (the (map_of ?fs k)))) (filter ?nonIdx ?K')"
    using sortedAssign_ordered[OF K'd _ K'np K'sub ordered_Nil, of c] by simp_all
  have G3: "distinct (map fst ?gs)" by (simp add: sortedAssign_distinct)
  have G4: "fst ` set ?gs = fst ` set ?fs"
    using sortedAssign_keys[OF K'np K'sub, of c "[]"] by (simp add: set_sortBy)
  have G5: "map_of ?gs k = Some (?s w)" if "map_of ?fs k = Some w" for k w
  proof -
    have "k \<in> fst ` set ?fs" using that by (metis map_of_None_keys option.distinct(1))
    then have "k \<in> set ?K'" by (simp add: set_sortBy)
    then show ?thesis using sortedAssign_map_of[OF K'np _ that] by blast
  qed
  \<comment> \<open>both passes give the same lookups\<close>
  have maps: "map_of ?gs = map_of ?fs"
  proof
    fix k
    show "map_of ?gs k = map_of ?fs k"
    proof (cases "k \<in> fst ` set es")
      case True
      then obtain v where kv: "(k, v) \<in> set es" by auto
      from G5[OF F5[OF kv]] ih[OF kv] F5[OF kv] show ?thesis by simp
    next
      case False
      then have "map_of ?fs k = None" using F4 by (simp add: map_of_None_keys)
      moreover have "map_of ?gs k = None" using False F4 G4 by (simp add: map_of_None_keys)
      ultimately show ?thesis by simp
    qed
  qed
  \<comment> \<open>and the same order of the keys that are no array indices\<close>
  have "filter ?nonIdx (map fst ?fs) = map fst (filter ?nidx ?fs)"
    by (simp add: filter_map comp_def idxEntry_def)
  also have "\<dots> = filter ?nonIdx ?K" by (simp add: F(2) comp_def)
  finally have keys1: "filter ?nonIdx (map fst ?fs) = filter ?nonIdx ?K" .
  have "filter ?nonIdx ?K' = sortBy c (filter ?nonIdx (map fst ?fs))"
    by (rule filter_sortBy[OF c])
  also have "\<dots> = sortBy c (filter ?nonIdx ?K)" by (simp only: keys1)
  also have "\<dots> = filter ?nonIdx ?K"
    by (intro sortBy_sorted sorted_wrt_filter sorted_sortBy[OF c])
  finally have keys2: "filter ?nonIdx ?K' = filter ?nonIdx ?K" .
  have "filter ?nidx ?gs = map (\<lambda>k. (k, ?s (the (map_of ?fs k)))) (filter ?nonIdx ?K)"
    using G(2) keys2 by simp
  also have "\<dots> = map (\<lambda>k. (k, ?s (the (map_of es k)))) (filter ?nonIdx ?K)"
  proof (rule map_cong[OF refl])
    fix k assume "k \<in> set (filter ?nonIdx ?K)"
    then have "k \<in> fst ` set es" by (auto simp: set_sortBy)
    then obtain v where kv: "(k, v) \<in> set es" by auto
    have "map_of es k = Some v" using d kv by simp
    with F5[OF kv] ih[OF kv]
    show "(k, ?s (the (map_of ?fs k))) = (k, ?s (the (map_of es k)))" by simp
  qed
  also have "\<dots> = filter ?nidx ?fs" using F(2) by simp
  finally have str: "filter ?nidx ?gs = filter ?nidx ?fs" .
  have "?gs = ?fs" using ordered_unique[OF G(1) F(1) G3 F3 maps str] .
  then show ?case by (simp add: Let_def)
qed simp_all

text \<open>
  C5 says that \<^verbatim>\<open>sortObjectKeys(v)\<close> differs from \<open>v\<close> in the order of object keys
  only. On the document \<^verbatim>\<open>{"__proto__": 1}\<close> (whose key \<^verbatim>\<open>JSON.parse\<close> creates as an
  own property) the result is the empty object: \<^verbatim>\<open>sorted["__proto__"] = 1\<close> runs the
  setter inherited from \<^verbatim>\<open>Object.prototype\<close> and creates no own property, so the key
  and its value are lost, whatever \<^verbatim>\<open>localeCompare\<close> answers.
\<close>

theorem C5_sortObjectKeys_drops_proto_key:
  "sortObjectKeys localeCompare (JObject [(''__proto__'', JNumber n)]) = JObject []"
  by (simp add: sortBy_def objSet_def)

end
